theory Spec2Isabelle
  imports Main "HOL-Library.Word"
begin

section \<open>Messages and the per-room message cache\<close>

text \<open>
  The room page keeps the message list of a room in the query cache under the key
  \<open>["messages", roomId]\<close>. The cached value is either \<open>undefined\<close> (nothing was ever
  stored) or an object \<open>{ messages: Message[] }\<close>. A \<open>Message\<close> has the fields the page
  reads and writes; the two fields whose names are reserved words here carry the prefix
  \<open>msg_\<close>.
\<close>

record Message =
  msg_id :: string
  sender :: string
  msg_text :: string
  timestamp :: int
  roomId :: string
  imageBase64 :: "string option"
  imageType :: "string option"

text \<open>\<open>{ messages: Message[] } | undefined\<close>: \<open>None\<close> is \<open>undefined\<close>.\<close>

type_synonym cache = "Message list option"

text \<open>What the page renders from the cache (\<open>messages?.messages\<close>): nothing when undefined.\<close>

definition messagesOf :: "cache \<Rightarrow> Message list" where
  "messagesOf c = (case c of None \<Rightarrow> [] | Some ms \<Rightarrow> ms)"

text \<open>\<open>Array.prototype.some\<close>.\<close>

primrec some :: "('a \<Rightarrow> bool) \<Rightarrow> 'a list \<Rightarrow> bool" where
  "some p [] = False"
| "some p (x # xs) = (if p x then True else some p xs)"

text \<open>
  The updater the realtime handler passes to \<open>setQueryData\<close> for a \<open>chat.message\<close> event
  carrying \<open>data\<close>.
\<close>

definition realtimeUpdater :: "Message \<Rightarrow> cache \<Rightarrow> cache" where
  "realtimeUpdater data old =
     (case old of
        None \<Rightarrow> Some [data]
      | Some ms \<Rightarrow>
          (if some (\<lambda>m. msg_id m = msg_id data) ms then old
           else Some (ms @ [data])))"

text \<open>The variables of the send mutation: \<open>{ text, imageBase64?, imageType?, id }\<close>.\<close>

record NewMessage =
  nm_text :: string
  nm_imageBase64 :: "string option"
  nm_imageType :: "string option"
  nm_id :: string

text \<open>
  The message \<open>onMutate\<close> synthesises from the mutation variables, the user name, the room
  id and the reading of \<open>Date.now()\<close>.
\<close>

definition optimisticMessage :: "string \<Rightarrow> string \<Rightarrow> int \<Rightarrow> NewMessage \<Rightarrow> Message" where
  "optimisticMessage username rid now newMessage =
     \<lparr> msg_id = nm_id newMessage,
       sender = username,
       msg_text = nm_text newMessage,
       timestamp = now,
       roomId = rid,
       imageBase64 = nm_imageBase64 newMessage,
       imageType = nm_imageType newMessage \<rparr>"

text \<open>The updater \<open>onMutate\<close> passes to \<open>setQueryData\<close>.\<close>

definition optimisticUpdater :: "string \<Rightarrow> string \<Rightarrow> int \<Rightarrow> NewMessage \<Rightarrow> cache \<Rightarrow> cache" where
  "optimisticUpdater username rid now newMessage old =
     (case old of
        None \<Rightarrow> Some [optimisticMessage username rid now newMessage]
      | Some ms \<Rightarrow> Some (ms @ [optimisticMessage username rid now newMessage]))"

section \<open>Numbers\<close>

text \<open>
  The page's numbers are double-precision floats. The countdown only ever holds whole
  numbers, so a number is kept here as the integer it equals; which integers are numbers,
  and what a subtraction yields, follows the float format: 53 significant bits, the exact
  result rounded to the nearest number, a tie going to the even significand. (Integers
  beyond the largest finite number, about \<open>1.8e308\<close>, are not covered.)

  \<open>exponent a\<close> is the number of low bits that do not fit the significand.
\<close>

function exponent :: "int \<Rightarrow> nat" where
  "exponent a = (if a < 2 ^ 53 then 0 else Suc (exponent (a div 2)))"
  by pat_completeness auto
termination
proof (relation "measure nat")
  show "wf (measure nat)" by simp
next
  fix a :: int
  assume "\<not> a < 2 ^ 53"
  then have "0 < a" by simp
  then show "(a div 2, a) \<in> measure nat" by simp
qed

declare exponent.simps [simp del]

definition roundDouble :: "int \<Rightarrow> int" where
  "roundDouble x =
     (let a = \<bar>x\<bar>;
          e = exponent a;
          q = a div 2 ^ e;
          r = a mod 2 ^ e;
          m = (if 2 ^ e < 2 * r \<or> (2 * r = 2 ^ e \<and> odd q) then q + 1 else q)
      in sgn x * (m * 2 ^ e))"

text \<open>The subtraction \<open>a - b\<close> of two numbers.\<close>

definition jsMinus :: "int \<Rightarrow> int \<Rightarrow> int" where
  "jsMinus a b = roundDouble (a - b)"

section \<open>The room page: query cache, send mutation, realtime handler, countdown\<close>

text \<open>
  The state of one mounted room page. \<open>messages\<close> is the cached value of the messages
  query; \<open>fetching\<close> is the token of the fetch of that query now in flight, if any, and
  \<open>issued\<close> counts the fetches started so far (tokens are handed out in order);
  \<open>pending\<close> holds, per send mutation still awaiting the transport, the context its
  \<open>onMutate\<close> returned (\<open>previousMessages\<close>); \<open>ttlData\<close> is the \<open>ttl\<close> held by
  the TTL query (\<open>None\<close> while it has no data); \<open>timeRemaining\<close> is the
  \<open>useState<number | null>\<close> of the countdown; \<open>intervals\<close> lists the handles of the
  interval timers that are live, oldest first, and \<open>nextInterval\<close> is the handle the next
  \<open>setInterval\<close> returns; \<open>effectInterval\<close> is the handle the cleanup function of the
  latest run of the countdown effect clears (\<open>None\<close> when that run returned before it set
  an interval, and so returned no cleanup function); \<open>pushes\<close> lists the \<open>router.push\<close>
  calls made so far.
\<close>

record page =
  messages :: cache
  fetching :: "nat option"
  issued :: nat
  pending :: "(string \<times> cache) list"
  ttlData :: "int option"
  timeRemaining :: "int option"
  intervals :: "nat list"
  nextInterval :: nat
  effectInterval :: "nat option"
  pushes :: "string list"

definition initial :: page where
  "initial = \<lparr> messages = None, fetching = None, issued = 0, pending = [],
               ttlData = None, timeRemaining = None, intervals = [], nextInterval = 0,
               effectInterval = None, pushes = [] \<rparr>"

subsection \<open>Query client operations on the messages query\<close>

text \<open>
  The query library's operations the page calls, as the library documents them:
  \<open>cancelQueries\<close> drops the fetch in flight, so that its answer is ignored when it comes;
  \<open>setQueryData\<close> with an updater stores the updater's result unless that is
  \<open>undefined\<close>; \<open>invalidateQueries\<close> starts a new fetch of the mounted query, replacing
  one in flight, except that a fetch in flight is kept when the query has no data yet; an
  answer is stored only when it belongs to the fetch in flight.
\<close>

definition cancelQueries :: "page \<Rightarrow> page" where
  "cancelQueries s = s\<lparr> fetching := None \<rparr>"

definition getQueryData :: "page \<Rightarrow> cache" where
  "getQueryData s = messages s"

definition setQueryData :: "(cache \<Rightarrow> cache) \<Rightarrow> page \<Rightarrow> page" where
  "setQueryData updater s =
     (case updater (messages s) of
        None \<Rightarrow> s
      | Some d \<Rightarrow> s\<lparr> messages := Some d \<rparr>)"

definition invalidateQueries :: "page \<Rightarrow> page" where
  "invalidateQueries s =
     (case fetching s of
        None \<Rightarrow> s\<lparr> fetching := Some (issued s), issued := Suc (issued s) \<rparr>
      | Some tok \<Rightarrow>
          (case messages s of
             None \<Rightarrow> s
           | Some ms \<Rightarrow> s\<lparr> fetching := Some (issued s), issued := Suc (issued s) \<rparr>))"

definition fetchResolved :: "nat \<Rightarrow> Message list \<Rightarrow> page \<Rightarrow> page" where
  "fetchResolved tok ms s =
     (if fetching s = Some tok then s\<lparr> messages := Some ms, fetching := None \<rparr> else s)"

definition fetchFailed :: "nat \<Rightarrow> page \<Rightarrow> page" where
  "fetchFailed tok s = (if fetching s = Some tok then s\<lparr> fetching := None \<rparr> else s)"

subsection \<open>The send mutation\<close>

text \<open>
  \<open>onMutate\<close>: cancel outgoing refetches, snapshot the cached value, append the optimistic
  message, and return the snapshot as the mutation's context.
\<close>

definition onMutate :: "string \<Rightarrow> string \<Rightarrow> int \<Rightarrow> NewMessage \<Rightarrow> page \<Rightarrow> page \<times> cache" where
  "onMutate username rid now newMessage s =
     (let s1 = cancelQueries s;
          previousMessages = getQueryData s1;
          s2 = setQueryData (optimisticUpdater username rid now newMessage) s1
      in (s2, previousMessages))"

text \<open>
  \<open>onError\<close>: roll back to the context's snapshot when it is truthy; an \<open>undefined\<close>
  snapshot is falsy, an object (also one with an empty list) is truthy.
\<close>

definition onError :: "cache \<Rightarrow> page \<Rightarrow> page" where
  "onError previousMessages s =
     (case previousMessages of
        None \<Rightarrow> s
      | Some ms \<Rightarrow> setQueryData (\<lambda>_. Some ms) s)"

definition onSuccess :: "page \<Rightarrow> page" where
  "onSuccess s = invalidateQueries s"

subsection \<open>The realtime handler\<close>

datatype rt_event = ChatMessage Message | ChatDestroy

definition destroyedUrl :: string where
  "destroyedUrl = ''/?destroyed=true''"

definition routerPush :: "string \<Rightarrow> page \<Rightarrow> page" where
  "routerPush url s = s\<lparr> pushes := pushes s @ [url] \<rparr>"

definition onData :: "rt_event \<Rightarrow> page \<Rightarrow> page" where
  "onData ev s =
     (case ev of
        ChatMessage data \<Rightarrow> setQueryData (realtimeUpdater data) s
      | ChatDestroy \<Rightarrow> routerPush destroyedUrl s)"

subsection \<open>The countdown\<close>

text \<open>
  \<open>setInterval\<close> hands out a fresh handle and makes the timer live; \<open>clearInterval\<close> ends
  the timer with the given handle and does nothing for a handle that is not live.
\<close>

definition clearInterval :: "nat \<Rightarrow> page \<Rightarrow> page" where
  "clearInterval i s = s\<lparr> intervals := removeAll i (intervals s) \<rparr>"

text \<open>
  The countdown effect depends on \<open>timeRemaining\<close>: after a render in which that value
  changed, the cleanup function the previous run returned (if it returned one) clears
  that run's interval, then the body runs. The body returns without a cleanup function
  when the value is \<open>null\<close>, negative or 0, navigating in the last case; otherwise it sets
  an interval and returns the cleanup function that clears it.
\<close>

definition cleanup :: "page \<Rightarrow> page" where
  "cleanup s = (case effectInterval s of None \<Rightarrow> s | Some i \<Rightarrow> clearInterval i s)"

definition countdownEffect :: "page \<Rightarrow> page" where
  "countdownEffect s =
     (case timeRemaining s of
        None \<Rightarrow> s\<lparr> effectInterval := None \<rparr>
      | Some t \<Rightarrow>
          (if t < 0 then s\<lparr> effectInterval := None \<rparr>
           else if t = 0 then routerPush destroyedUrl (s\<lparr> effectInterval := None \<rparr>)
           else s\<lparr> intervals := intervals s @ [nextInterval s],
                   effectInterval := Some (nextInterval s),
                   nextInterval := Suc (nextInterval s) \<rparr>))"

text \<open>
  A state update to \<open>v\<close>: an update to the value already held neither re-renders nor
  re-runs the effect; any other stores the value and re-runs the effect after its cleanup.
\<close>

definition setTimeRemaining :: "int \<Rightarrow> page \<Rightarrow> page" where
  "setTimeRemaining v s =
     (if timeRemaining s = Some v then s
      else countdownEffect (cleanup (s\<lparr> timeRemaining := Some v \<rparr>)))"

text \<open>The effect on \<open>ttlData\<close>; \<open>None\<close> stands for \<open>ttlData?.ttl === undefined\<close>.\<close>

definition ttlEffect :: "int option \<Rightarrow> page \<Rightarrow> page" where
  "ttlEffect ttl s = (case ttl of None \<Rightarrow> s | Some t \<Rightarrow> setTimeRemaining t s)"

text \<open>
  The callback of the interval with handle \<open>i\<close>. Its updater clears that interval and
  yields 0 when the previous value is \<open>null\<close> or at most 1, and the previous value less
  one otherwise.
\<close>

definition intervalCallback :: "nat \<Rightarrow> page \<Rightarrow> page" where
  "intervalCallback i s =
     (case timeRemaining s of
        None \<Rightarrow> setTimeRemaining 0 (clearInterval i s)
      | Some prev \<Rightarrow>
          (if prev \<le> 1 then setTimeRemaining 0 (clearInterval i s)
           else setTimeRemaining (jsMinus prev 1) s))"

text \<open>
  One second passes: every interval that was live when the second began fires once, the
  oldest first, unless it was cleared before its turn. An interval set during the second
  fires in the next one.
\<close>

definition fire :: "nat \<Rightarrow> page \<Rightarrow> page" where
  "fire i s = (if i \<in> set (intervals s) then intervalCallback i s else s)"

definition tick :: "page \<Rightarrow> page" where
  "tick s = fold fire (intervals s) s"

text \<open>Leaving the page runs the cleanup function of the countdown effect.\<close>

definition unmount :: "page \<Rightarrow> page" where
  "unmount s = cleanup s"

primrec ticks :: "nat \<Rightarrow> page \<Rightarrow> page" where
  "ticks 0 s = s"
| "ticks (Suc k) s = ticks k (tick s)"

text \<open>
  The TTL query is configured to fetch once and never again (\<open>staleTime: Infinity\<close>, no
  refetch on window focus or on mount), and nothing invalidates it: its data changes
  once, from \<open>undefined\<close> to the server's answer, and the effect on \<open>ttlData\<close> runs
  then. The answer carries the server's integer, which the page holds as a number.
\<close>

definition ttlFetched :: "int \<Rightarrow> page \<Rightarrow> page" where
  "ttlFetched t s =
     (case ttlData s of
        None \<Rightarrow> ttlEffect (Some (roundDouble t)) (s\<lparr> ttlData := Some (roundDouble t) \<rparr>)
      | Some _ \<Rightarrow> s)"

text \<open>\<open>ARMED(n)\<close>: the page after the server's TTL \<open>n\<close> was first observed.\<close>

definition armed :: "int \<Rightarrow> page" where
  "armed n = ttlFetched n initial"

subsection \<open>The page as an event-driven machine\<close>

text \<open>
  Everything that happens to a mounted page is one of these callbacks, run to completion
  one at a time, in any order: the interval fires; the realtime channel delivers an
  event; the TTL query gets its answer; a fetch of the messages query starts (on mount);
  the transport answers or fails the fetch with a given token; the composer sends (with
  the reading of \<open>Date.now()\<close> taken in \<open>onMutate\<close>); the transport rejects or confirms
  the post of the mutation with a given message id; the page is left.
\<close>

datatype event =
    Tick
  | Realtime rt_event
  | TtlAnswer int
  | Refetch
  | Fetched nat "Message list"
  | FetchError nat
  | Send NewMessage int
  | SendError string
  | SendOk string
  | Unmount

definition dropPending :: "string \<Rightarrow> page \<Rightarrow> page" where
  "dropPending i s = s\<lparr> pending := filter (\<lambda>p. fst p \<noteq> i) (pending s) \<rparr>"

definition step :: "string \<Rightarrow> string \<Rightarrow> event \<Rightarrow> page \<Rightarrow> page" where
  "step username rid ev s =
     (case ev of
        Tick \<Rightarrow> tick s
      | Realtime e \<Rightarrow> onData e s
      | TtlAnswer t \<Rightarrow> ttlFetched t s
      | Refetch \<Rightarrow> invalidateQueries s
      | Fetched tok ms \<Rightarrow> fetchResolved tok ms s
      | FetchError tok \<Rightarrow> fetchFailed tok s
      | Send newMessage now \<Rightarrow>
          (case onMutate username rid now newMessage s of
             (s', ctx) \<Rightarrow> s'\<lparr> pending := pending s' @ [(nm_id newMessage, ctx)] \<rparr>)
      | SendError i \<Rightarrow>
          (case map_of (pending s) i of
             None \<Rightarrow> s
           | Some ctx \<Rightarrow> onError ctx (dropPending i s))
      | SendOk i \<Rightarrow>
          (case map_of (pending s) i of
             None \<Rightarrow> s
           | Some ctx \<Rightarrow> onSuccess (dropPending i s))
      | Unmount \<Rightarrow> unmount s)"

primrec run :: "string \<Rightarrow> string \<Rightarrow> event list \<Rightarrow> page \<Rightarrow> page" where
  "run username rid [] s = s"
| "run username rid (ev # evs) s = run username rid evs (step username rid ev s)"

subsection \<open>Message ids and what the page's surroundings are trusted to do\<close>

definition ids :: "cache \<Rightarrow> string list" where
  "ids c = map msg_id (messagesOf c)"

definition uniqueIds :: "cache \<Rightarrow> bool" where
  "uniqueIds c = distinct (ids c)"

text \<open>
  Two things the page does not check and takes from its surroundings: the id the page
  draws for a send (\<open>crypto.randomUUID()\<close>) is not the id of a message it already shows,
  and the list the server answers a fetch with names no id twice.
\<close>

definition allowed :: "event \<Rightarrow> page \<Rightarrow> bool" where
  "allowed ev s =
     (case ev of
        Send newMessage now \<Rightarrow> nm_id newMessage \<notin> set (ids (messages s))
      | Fetched tok ms \<Rightarrow> distinct (map msg_id ms)
      | _ \<Rightarrow> True)"

text \<open>Every snapshot a pending send holds names no id twice.\<close>

definition snapshotsUnique :: "page \<Rightarrow> bool" where
  "snapshotsUnique s = list_all (\<lambda>p. uniqueIds (snd p)) (pending s)"

primrec admissible :: "string \<Rightarrow> string \<Rightarrow> event list \<Rightarrow> page \<Rightarrow> bool" where
  "admissible username rid [] s = True"
| "admissible username rid (ev # evs) s =
     (if allowed ev s then admissible username rid evs (step username rid ev s) else False)"

text \<open>
  Events that may follow an optimistic append made when \<open>n\<close> fetches had been issued,
  in a run where no send fails and every fetch answer that arrives belongs to a fetch
  issued before the append.
\<close>

definition predates :: "nat \<Rightarrow> event \<Rightarrow> bool" where
  "predates n ev =
     (case ev of
        Fetched tok ms \<Rightarrow> tok < n
      | SendError i \<Rightarrow> False
      | _ \<Rightarrow> True)"

text \<open>
  The part of the page the countdown reads and writes, the events other than the destroy
  signal and leaving the page, and the number of interval firings in a run.
\<close>

definition timerOf ::
  "page \<Rightarrow> int option \<times> int option \<times> nat list \<times> nat \<times> nat option \<times> string list" where
  "timerOf s =
     (ttlData s, timeRemaining s, intervals s, nextInterval s, effectInterval s, pushes s)"

text \<open>
  The countdown is running at \<open>p\<close>: the value is \<open>p\<close> and the one live interval is the
  one the cleanup function of the latest effect run clears.
\<close>

definition counting :: "page \<Rightarrow> int \<Rightarrow> bool" where
  "counting s p =
     (timeRemaining s = Some p \<and>
      (case effectInterval s of None \<Rightarrow> False | Some i \<Rightarrow> intervals s = [i]))"

text \<open>
  No interval is live but the one the cleanup function of the latest effect run clears.
\<close>

definition timerOk :: "page \<Rightarrow> bool" where
  "timerOk s =
     (intervals s = [] \<or>
      (case effectInterval s of None \<Rightarrow> False | Some i \<Rightarrow> intervals s = [i]))"

definition quiet :: "event \<Rightarrow> bool" where
  "quiet ev =
     (case ev of
        Realtime e \<Rightarrow> (case e of ChatMessage data \<Rightarrow> True | ChatDestroy \<Rightarrow> False)
      | Unmount \<Rightarrow> False
      | _ \<Rightarrow> True)"

definition isTick :: "event \<Rightarrow> bool" where
  "isTick ev = (case ev of Tick \<Rightarrow> True | _ \<Rightarrow> False)"

definition tickCount :: "event list \<Rightarrow> nat" where
  "tickCount evs = length (filter isTick evs)"

section \<open>The composer\<close>

text \<open>
  The composer's text is kept as the list of its UTF-16 code units, since \<open>trim\<close> depends
  on which code units are white space: the white space and line terminator code points
  of the language standard (tab, line feed, vertical tab, form feed, carriage return,
  space, no-break space, U+1680, U+2000 to U+200A, U+2028, U+2029, U+202F, U+205F,
  U+3000, U+FEFF).
\<close>

type_synonym jsstring = "16 word list"

definition isWhiteSpace :: "16 word \<Rightarrow> bool" where
  "isWhiteSpace c =
     (c = 0x9 \<or> c = 0xA \<or> c = 0xB \<or> c = 0xC \<or> c = 0xD \<or> c = 0x20 \<or> c = 0xA0
      \<or> c = 0x1680 \<or> (0x2000 \<le> c \<and> c \<le> 0x200A) \<or> c = 0x2028 \<or> c = 0x2029
      \<or> c = 0x202F \<or> c = 0x205F \<or> c = 0x3000 \<or> c = 0xFEFF)"

text \<open>\<open>String.prototype.trim\<close>.\<close>

definition trim :: "jsstring \<Rightarrow> jsstring" where
  "trim xs = rev (dropWhile isWhiteSpace (rev (dropWhile isWhiteSpace xs)))"

text \<open>\<open>{ base64: string; type: string }\<close>.\<close>

record ImageData =
  base64 :: jsstring
  mimeType :: jsstring

text \<open>
  The composer's state: the three \<open>useState\<close> values the send reads or writes, the upload
  flag, the value of the hidden file input (\<open>None\<close> while its ref is \<open>null\<close>), and the
  calls of \<open>onSend\<close> made so far, oldest first.
\<close>

record composer =
  input :: jsstring
  imagePreview :: "jsstring option"
  imageData :: "ImageData option"
  isUploading :: bool
  fileInput :: "jsstring option"
  sent :: "(jsstring \<times> ImageData option) list"

definition removeImage :: "composer \<Rightarrow> composer" where
  "removeImage s =
     s\<lparr> imagePreview := None, imageData := None,
        fileInput := (case fileInput s of None \<Rightarrow> None | Some v \<Rightarrow> Some []) \<rparr>"

text \<open>
  \<open>handleSend\<close>: the empty string is falsy and \<open>null\<close> is falsy, so the guard returns
  when the trimmed text is empty and no image is attached. (The focus request it
  schedules at the end touches the document only.)
\<close>

definition handleSend :: "composer \<Rightarrow> composer" where
  "handleSend s =
     (if trim (input s) = [] \<and> imageData s = None then s
      else removeImage (s\<lparr> sent := sent s @ [(input s, imageData s)], input := [] \<rparr>))"

text \<open>The key handler of the text field.\<close>

definition onKeyDown :: "string \<Rightarrow> bool \<Rightarrow> composer \<Rightarrow> composer" where
  "onKeyDown key shiftKey s = (if key = ''Enter'' \<and> \<not> shiftKey then handleSend s else s)"

text \<open>The send button: a disabled button receives no click.\<close>

definition sendDisabled :: "bool \<Rightarrow> composer \<Rightarrow> bool" where
  "sendDisabled isPending s = ((trim (input s) = [] \<and> imageData s = None) \<or> isPending)"

definition onSendClick :: "bool \<Rightarrow> composer \<Rightarrow> composer" where
  "onSendClick isPending s = (if sendDisabled isPending s then s else handleSend s)"

section \<open>Sample values\<close>

text \<open>Sample values for the concrete scenarios below.\<close>

definition sampleMessage :: "string \<Rightarrow> string \<Rightarrow> Message" where
  "sampleMessage i t =
     \<lparr> msg_id = i, sender = ''quiet-otter'', msg_text = t, timestamp = 1000,
       roomId = ''r1'', imageBase64 = None, imageType = None \<rparr>"

definition sampleDraft :: "string \<Rightarrow> string \<Rightarrow> NewMessage" where
  "sampleDraft i t =
     \<lparr> nm_text = t, nm_imageBase64 = None, nm_imageType = None, nm_id = i \<rparr>"

section \<open>Basic facts\<close>

lemma messagesOf_simps [simp]: "messagesOf None = []" "messagesOf (Some ms) = ms"
  by (simp_all add: messagesOf_def)

lemma some_iff: "some p xs \<longleftrightarrow> (\<exists>x \<in> set xs. p x)"
  by (induction xs) auto

lemma some_id_iff: "some (\<lambda>x. msg_id x = i) ms \<longleftrightarrow> i \<in> msg_id ` set ms"
  by (auto simp: some_iff image_iff)

lemma realtimeUpdater_present:
  "msg_id m \<in> msg_id ` set (messagesOf c) \<Longrightarrow> realtimeUpdater m c = c"
  by (cases c) (simp_all add: realtimeUpdater_def some_id_iff)

lemma realtimeUpdater_absent:
  "msg_id m \<notin> msg_id ` set (messagesOf c) \<Longrightarrow> realtimeUpdater m c = Some (messagesOf c @ [m])"
  by (cases c) (simp_all add: realtimeUpdater_def some_id_iff)

lemma optimisticUpdater_eq:
  "optimisticUpdater u r now nm c = Some (messagesOf c @ [optimisticMessage u r now nm])"
  by (cases c) (simp_all add: optimisticUpdater_def)

lemma setQueryData_Some:
  "f (messages s) = Some d \<Longrightarrow> setQueryData f s = s\<lparr> messages := Some d \<rparr>"
  by (simp add: setQueryData_def)

lemma onMutate_fst:
  "fst (onMutate u r now nm s) =
     s\<lparr> fetching := None,
        messages := Some (messagesOf (messages s) @ [optimisticMessage u r now nm]) \<rparr>"
  by (simp add: onMutate_def Let_def cancelQueries_def setQueryData_def optimisticUpdater_eq)

lemma onMutate_snd: "snd (onMutate u r now nm s) = messages s"
  by (simp add: onMutate_def Let_def cancelQueries_def getQueryData_def)

lemma onData_message_present:
  "msg_id m \<in> msg_id ` set (messagesOf (messages s)) \<Longrightarrow> onData (ChatMessage m) s = s"
  by (simp add: onData_def setQueryData_def realtimeUpdater_present split: option.splits)

lemma onData_message_absent:
  "msg_id m \<notin> msg_id ` set (messagesOf (messages s)) \<Longrightarrow>
     onData (ChatMessage m) s = s\<lparr> messages := Some (messagesOf (messages s) @ [m]) \<rparr>"
  by (simp add: onData_def setQueryData_def realtimeUpdater_absent)

lemma step_Send:
  "step u r (Send nm now) s =
     (fst (onMutate u r now nm s))\<lparr> pending := pending s @ [(nm_id nm, messages s)] \<rparr>"
proof -
  have "onMutate u r now nm s = (fst (onMutate u r now nm s), messages s)"
    by (simp add: prod_eq_iff onMutate_snd)
  then show ?thesis
    by (simp add: step_def onMutate_fst)
qed

lemma step_SendError:
  "step u r (SendError i) s =
     (case map_of (pending s) i of None \<Rightarrow> s | Some ctx \<Rightarrow> onError ctx (dropPending i s))"
  by (simp add: step_def)

lemma step_Refetch: "step u r Refetch s = invalidateQueries s"
  by (simp add: step_def)

lemma invalidateQueries_frame:
  "messages (invalidateQueries s) = messages s \<and> pending (invalidateQueries s) = pending s
   \<and> issued s \<le> issued (invalidateQueries s)
   \<and> (fetching (invalidateQueries s) = fetching s
        \<or> fetching (invalidateQueries s) = Some (issued s))"
  by (simp add: invalidateQueries_def split: option.splits)

lemma cleanup_frame:
  "messages (cleanup s) = messages s \<and> pending (cleanup s) = pending s
   \<and> fetching (cleanup s) = fetching s \<and> issued (cleanup s) = issued s"
  by (simp add: cleanup_def clearInterval_def split: option.splits)

lemma dropPending_frame:
  "messages (dropPending i s) = messages s \<and> fetching (dropPending i s) = fetching s
   \<and> issued (dropPending i s) = issued s"
  by (simp add: dropPending_def)

section \<open>Rollback of a failed send\<close>

text \<open>
  Let \<open>s\<close> be the page when \<open>onMutate\<close> runs and \<open>s'\<close> the page when the transport rejects
  the send (whatever happened in between). If the cache held a message list when the
  snapshot was taken, \<open>onError\<close> puts exactly that list back.
\<close>

lemma rollback_restores_list_snapshot:
  "messages s = Some ms \<Longrightarrow> messages (onError (snd (onMutate u r now nm s)) s') = Some ms"
  by (simp add: onMutate_snd onError_def setQueryData_def)

text \<open>From \<open>[m1]\<close>, a failed send of \<open>m2\<close> leaves exactly \<open>[m1]\<close>.\<close>

lemma rollback_scenario:
  "messages (run ''me'' ''r1'' [Send (sampleDraft ''m2'' ''hi'') 2000, SendError ''m2'']
      (initial\<lparr> messages := Some [sampleMessage ''m1'' ''yo''] \<rparr>))
     = Some [sampleMessage ''m1'' ''yo'']"
  by (simp add: step_Send step_SendError onMutate_fst onError_def setQueryData_def
        dropPending_def initial_def sampleDraft_def)

text \<open>
  Claim C1: for every room state, a failed send restores the message list to the
  snapshot taken just before the optimistic append. The page breaks this when the cache
  is still \<open>undefined\<close> at the send (the first fetch not answered yet): the snapshot is
  then \<open>undefined\<close>, the truthiness guard of \<open>onError\<close> takes it for a missing context and
  skips the rollback. Before the send the page showed no message; after the failed send
  it shows the optimistic entry, which no server ever accepted.
\<close>

theorem failed_send_on_undefined_cache_keeps_entry:
  "messages initial = None
   \<and> messages (onError (snd (onMutate ''me'' ''r1'' 2000 (sampleDraft ''m2'' ''hi'') initial))
        (fst (onMutate ''me'' ''r1'' 2000 (sampleDraft ''m2'' ''hi'') initial)))
     = Some [optimisticMessage ''me'' ''r1'' 2000 (sampleDraft ''m2'' ''hi'')]
   \<and> messages (run ''me'' ''r1''
        [Refetch, Send (sampleDraft ''m2'' ''hi'') 2000, SendError ''m2''] initial)
     = Some [optimisticMessage ''me'' ''r1'' 2000 (sampleDraft ''m2'' ''hi'')]"
  by (simp add: onMutate_snd onMutate_fst onError_def initial_def step_Send step_SendError
        step_Refetch invalidateQueries_def dropPending_def sampleDraft_def)

section \<open>The realtime merge\<close>

text \<open>
  Claim C2. Merging the same pushed message twice gives the same cached value, and the
  same page, as merging it once.
\<close>

theorem realtime_merge_idempotent:
  "realtimeUpdater m (realtimeUpdater m c) = realtimeUpdater m c
   \<and> onData (ChatMessage m) (onData (ChatMessage m) s) = onData (ChatMessage m) s"
proof
  show "realtimeUpdater m (realtimeUpdater m c) = realtimeUpdater m c"
  proof (cases "msg_id m \<in> msg_id ` set (messagesOf c)")
    case True
    then show ?thesis by (simp add: realtimeUpdater_present)
  next
    case False
    then have "realtimeUpdater m c = Some (messagesOf c @ [m])"
      by (rule realtimeUpdater_absent)
    then show ?thesis by (simp add: realtimeUpdater_present)
  qed
next
  show "onData (ChatMessage m) (onData (ChatMessage m) s) = onData (ChatMessage m) s"
  proof (cases "msg_id m \<in> msg_id ` set (messagesOf (messages s))")
    case True
    then show ?thesis by (simp add: onData_message_present)
  next
    case False
    then have "onData (ChatMessage m) s = s\<lparr> messages := Some (messagesOf (messages s) @ [m]) \<rparr>"
      by (rule onData_message_absent)
    then show ?thesis by (simp add: onData_message_present)
  qed
qed

text \<open>
  Claim C3. Merging a pushed message \<open>m\<close> changes nothing when an entry of the list
  already has the id of \<open>m\<close>, and otherwise yields the list with \<open>m\<close> appended at the
  tail (an \<open>undefined\<close> cache counting as the empty list). The page changes in its
  message cache only.
\<close>

theorem realtime_merge_noop_or_append:
  "realtimeUpdater m c =
     (if msg_id m \<in> msg_id ` set (messagesOf c) then c else Some (messagesOf c @ [m]))
   \<and> onData (ChatMessage m) s =
     (if msg_id m \<in> msg_id ` set (messagesOf (messages s)) then s
      else s\<lparr> messages := Some (messagesOf (messages s) @ [m]) \<rparr>)"
  by (simp add: realtimeUpdater_present realtimeUpdater_absent
        onData_message_present onData_message_absent)

section \<open>The optimistic append\<close>

text \<open>
  Claim C4. \<open>onMutate\<close> appends to the cached list, at the tail, the message built from
  the client-generated id, the user name, the reading of \<open>Date.now()\<close>, the room id and
  the draft's text and image fields; the mutation is then still pending, its transport
  call not yet answered. From an empty or \<open>undefined\<close> cache and the id \<open>a\<close> the result is
  the one-element list holding that sender and text.
\<close>

theorem optimistic_send_appends:
  "messages (fst (onMutate u r now nm s)) =
     Some (messagesOf (messages s) @
       [\<lparr> msg_id = nm_id nm, sender = u, msg_text = nm_text nm, timestamp = now,
          roomId = r, imageBase64 = nm_imageBase64 nm, imageType = nm_imageType nm \<rparr>])
   \<and> messages (step u r (Send nm now) s) = messages (fst (onMutate u r now nm s))
   \<and> (nm_id nm, messages s) \<in> set (pending (step u r (Send nm now) s))
   \<and> messagesOf (messages (step u r (Send (sampleDraft ''a'' t) now) initial)) =
       [\<lparr> msg_id = ''a'', sender = u, msg_text = t, timestamp = now,
          roomId = r, imageBase64 = None, imageType = None \<rparr>]
   \<and> messagesOf (messages (step u r (Send (sampleDraft ''a'' t) now)
        (initial\<lparr> messages := Some [] \<rparr>))) =
       [\<lparr> msg_id = ''a'', sender = u, msg_text = t, timestamp = now,
          roomId = r, imageBase64 = None, imageType = None \<rparr>]"
  by (simp add: step_Send onMutate_fst optimisticMessage_def sampleDraft_def initial_def)

section \<open>Numbers\<close>

lemma exponent_small: "a < 2 ^ 53 \<Longrightarrow> exponent a = 0"
  by (subst exponent.simps) simp

lemma exponent_le: "0 < a \<Longrightarrow> 2 ^ exponent a \<le> a"
proof (induction a rule: exponent.induct)
  case (1 a)
  show ?case
  proof (cases "a < 2 ^ 53")
    case True
    then show ?thesis using "1.prems" by (simp add: exponent_small)
  next
    case False
    then have "0 < a div 2" by simp
    with False have "2 ^ exponent (a div 2) \<le> a div 2" by (rule "1.IH")
    then have "2 * 2 ^ exponent (a div 2) \<le> 2 * (a div 2)" by simp
    also have "\<dots> \<le> a" by simp
    finally show ?thesis using False by (subst exponent.simps) simp
  qed
qed

lemma roundDouble_exact: "\<bar>x\<bar> < 2 ^ 53 \<Longrightarrow> roundDouble x = x"
  by (simp add: roundDouble_def exponent_small Let_def mult_sgn_abs)

lemma roundDouble_2_53: "roundDouble (2 ^ 53) = 2 ^ 53"
  by code_simp

lemma roundDouble_upto: "0 \<le> x \<Longrightarrow> x \<le> 2 ^ 53 \<Longrightarrow> roundDouble x = x"
proof (cases "x = 2 ^ 53")
  case True
  then show ?thesis by (simp only: roundDouble_2_53)
next
  case False
  assume "0 \<le> x" "x \<le> 2 ^ 53"
  with False have "\<bar>x\<bar> < 2 ^ 53" by simp
  then show ?thesis by (rule roundDouble_exact)
qed

lemma roundDouble_neg: "x < 0 \<Longrightarrow> roundDouble x < 0"
proof -
  assume neg: "x < 0"
  define a where "a = \<bar>x\<bar>"
  define e where "e = exponent a"
  define q where "q = a div 2 ^ e"
  define m where "m = (if 2 ^ e < 2 * (a mod 2 ^ e) \<or> (2 * (a mod 2 ^ e) = 2 ^ e \<and> odd q)
                       then q + 1 else q)"
  have a: "0 < a" using neg by (simp add: a_def)
  then have "2 ^ e \<le> a" unfolding e_def by (rule exponent_le)
  then have "1 \<le> q" unfolding q_def
    by (metis div_by_1 div_self not_less not_one_le_zero pos_imp_zdiv_pos_iff zero_less_numeral
          zero_less_power zdiv_mono1 power_not_zero zero_neq_numeral)
  then have "0 < m" by (simp add: m_def)
  then have "0 < m * 2 ^ e" by simp
  moreover have "roundDouble x = - (m * 2 ^ e)"
    using neg by (simp add: roundDouble_def Let_def a_def e_def q_def m_def)
  ultimately show ?thesis by simp
qed

lemma jsMinus_exact: "1 < p \<Longrightarrow> p \<le> 2 ^ 53 \<Longrightarrow> jsMinus p 1 = p - 1"
  by (simp add: jsMinus_def roundDouble_exact)

lemma jsMinus_stall: "jsMinus (2 ^ 54) 1 = 2 ^ 54"
  by code_simp

section \<open>The countdown\<close>

lemma tick_idle: "intervals s = [] \<Longrightarrow> tick s = s"
  by (simp add: tick_def)

lemma tick_single: "intervals s = [i] \<Longrightarrow> tick s = intervalCallback i s"
  by (simp add: tick_def fire_def)

lemma tick_counting:
  assumes c: "counting s p" and p: "1 < p" "p \<le> 2 ^ 53"
  shows "counting (tick s) (p - 1) \<and> pushes (tick s) = pushes s \<and> ttlData (tick s) = ttlData s"
proof -
  from c obtain i where i: "intervals s = [i]" "effectInterval s = Some i"
    and t: "timeRemaining s = Some p"
    by (auto simp: counting_def split: option.splits)
  have "tick s = setTimeRemaining (p - 1) s"
    using p t by (simp add: tick_single [OF i(1)] intervalCallback_def jsMinus_exact)
  then show ?thesis
    using i t p
    by (simp add: setTimeRemaining_def cleanup_def clearInterval_def countdownEffect_def
          counting_def)
qed

lemma tick_last:
  assumes c: "counting s 1"
  shows "timeRemaining (tick s) = Some 0 \<and> intervals (tick s) = []
       \<and> pushes (tick s) = pushes s @ [destroyedUrl]"
proof -
  from c obtain i where i: "intervals s = [i]" "effectInterval s = Some i"
    and t: "timeRemaining s = Some 1"
    by (auto simp: counting_def split: option.splits)
  have "tick s = setTimeRemaining 0 (clearInterval i s)"
    using t by (simp add: tick_single [OF i(1)] intervalCallback_def)
  then show ?thesis
    using i t
    by (simp add: setTimeRemaining_def cleanup_def clearInterval_def countdownEffect_def
          routerPush_def)
qed

lemma tick_stall:
  assumes c: "counting s p" and p: "1 < p" "jsMinus p 1 = p"
  shows "tick s = s"
proof -
  from c obtain i where i: "intervals s = [i]" and t: "timeRemaining s = Some p"
    by (auto simp: counting_def split: option.splits)
  show ?thesis
    using p t by (simp add: tick_single [OF i] intervalCallback_def setTimeRemaining_def)
qed

lemma ticks_idle: "intervals s = [] \<Longrightarrow> ticks k s = s"
  by (induction k) (simp_all add: tick_idle)

lemma ticks_add: "ticks (a + b) s = ticks b (ticks a s)"
  by (induction a arbitrary: s) simp_all

lemma ticks_stall: "counting s p \<Longrightarrow> 1 < p \<Longrightarrow> jsMinus p 1 = p \<Longrightarrow> ticks k s = s"
  by (induction k) (simp_all add: tick_stall)

lemma ticks_counting:
  "counting s p \<Longrightarrow> int k < p \<Longrightarrow> p \<le> 2 ^ 53 \<Longrightarrow>
     counting (ticks k s) (p - int k) \<and> pushes (ticks k s) = pushes s"
proof (induction k arbitrary: s p)
  case 0
  then show ?case by simp
next
  case (Suc k)
  have p1: "1 < p" using Suc.prems(2) by simp
  note t = tick_counting [OF Suc.prems(1) p1 Suc.prems(3)]
  have "counting (ticks k (tick s)) (p - 1 - int k) \<and> pushes (ticks k (tick s)) = pushes (tick s)"
    using t Suc.prems by (intro Suc.IH) simp_all
  with t show ?case by (simp add: algebra_simps)
qed

lemma ticks_expire:
  assumes "counting s p" "0 < p" "p \<le> 2 ^ 53" "p \<le> int k"
  shows "timeRemaining (ticks k s) = Some 0 \<and> intervals (ticks k s) = []
       \<and> pushes (ticks k s) = pushes s @ [destroyedUrl]"
proof -
  define j where "j = nat (p - 1)"
  define d where "d = k - Suc j"
  have k: "k = j + Suc d" using assms by (simp add: j_def d_def)
  have jp: "int j < p" using assms by (simp add: j_def)
  have one: "counting (ticks j s) 1" and same: "pushes (ticks j s) = pushes s"
    using ticks_counting [OF assms(1) jp assms(3)] assms(2) by (simp_all add: j_def)
  note l = tick_last [OF one]
  have "ticks k s = ticks d (tick (ticks j s))"
    unfolding k ticks_add by simp
  also have "\<dots> = tick (ticks j s)" using l by (intro ticks_idle) simp
  finally show ?thesis using l same by simp
qed

lemma armed_state:
  "armed n = setTimeRemaining (roundDouble n) (initial\<lparr> ttlData := Some (roundDouble n) \<rparr>)"
  by (simp add: armed_def ttlFetched_def ttlEffect_def initial_def)

lemma armed_pos:
  "0 < n \<Longrightarrow> n \<le> 2 ^ 53 \<Longrightarrow> counting (armed n) n \<and> pushes (armed n) = []"
  by (simp add: armed_state roundDouble_upto initial_def setTimeRemaining_def cleanup_def
        countdownEffect_def counting_def)

lemma armed_zero:
  "timeRemaining (armed 0) = Some 0 \<and> intervals (armed 0) = []
     \<and> pushes (armed 0) = [destroyedUrl]"
  by (simp add: armed_state roundDouble_exact initial_def setTimeRemaining_def cleanup_def
        countdownEffect_def routerPush_def)

lemma armed_neg:
  "n < 0 \<Longrightarrow>
     armed n = initial\<lparr> ttlData := Some (roundDouble n), timeRemaining := Some (roundDouble n) \<rparr>"
  using roundDouble_neg [of n]
  by (simp add: armed_state initial_def setTimeRemaining_def cleanup_def countdownEffect_def)

lemma armed_ttlData: "ttlData (armed n) = Some (roundDouble n)"
  by (simp add: armed_state initial_def setTimeRemaining_def cleanup_def clearInterval_def
        countdownEffect_def routerPush_def)

lemma setTimeRemaining_timerOf:
  "timerOf a = timerOf b \<Longrightarrow> timerOf (setTimeRemaining v a) = timerOf (setTimeRemaining v b)"
  by (simp add: timerOf_def setTimeRemaining_def cleanup_def clearInterval_def
        countdownEffect_def routerPush_def split: option.splits)

lemma clearInterval_timerOf:
  "timerOf a = timerOf b \<Longrightarrow> timerOf (clearInterval i a) = timerOf (clearInterval i b)"
  by (simp add: timerOf_def clearInterval_def)

lemma intervalCallback_timerOf:
  assumes "timerOf a = timerOf b"
  shows "timerOf (intervalCallback i a) = timerOf (intervalCallback i b)"
proof -
  have t: "timeRemaining a = timeRemaining b" using assms by (simp add: timerOf_def)
  note c = setTimeRemaining_timerOf [OF clearInterval_timerOf [OF assms]]
  note d = setTimeRemaining_timerOf [OF assms]
  show ?thesis
    unfolding intervalCallback_def t using c d by (simp split: option.splits)
qed

lemma fire_timerOf:
  assumes "timerOf a = timerOf b"
  shows "timerOf (fire i a) = timerOf (fire i b)"
proof -
  have "intervals a = intervals b" using assms by (simp add: timerOf_def)
  then show ?thesis
    using assms intervalCallback_timerOf [OF assms] by (simp add: fire_def)
qed

lemma fold_fire_timerOf:
  "timerOf a = timerOf b \<Longrightarrow> timerOf (fold fire xs a) = timerOf (fold fire xs b)"
proof (induction xs arbitrary: a b)
  case Nil
  then show ?case by simp
next
  case (Cons x xs)
  from Cons.prems have "timerOf (fire x a) = timerOf (fire x b)" by (rule fire_timerOf)
  then have "timerOf (fold fire xs (fire x a)) = timerOf (fold fire xs (fire x b))"
    by (rule Cons.IH)
  then show ?case by simp
qed

lemma tick_timerOf:
  assumes "timerOf a = timerOf b"
  shows "timerOf (tick a) = timerOf (tick b)"
proof -
  have "intervals a = intervals b" using assms by (simp add: timerOf_def)
  then show ?thesis using fold_fire_timerOf [OF assms] by (simp add: tick_def)
qed

lemma ticks_timerOf: "timerOf a = timerOf b \<Longrightarrow> timerOf (ticks k a) = timerOf (ticks k b)"
proof (induction k arbitrary: a b)
  case 0
  then show ?case by simp
next
  case (Suc k)
  from Suc.prems have "timerOf (tick a) = timerOf (tick b)" by (rule tick_timerOf)
  then have "timerOf (ticks k (tick a)) = timerOf (ticks k (tick b))" by (rule Suc.IH)
  then show ?case by simp
qed

lemma setTimeRemaining_frame:
  "messages (setTimeRemaining v s) = messages s \<and> pending (setTimeRemaining v s) = pending s
   \<and> fetching (setTimeRemaining v s) = fetching s \<and> issued (setTimeRemaining v s) = issued s
   \<and> ttlData (setTimeRemaining v s) = ttlData s"
  by (simp add: setTimeRemaining_def cleanup_def clearInterval_def countdownEffect_def
        routerPush_def split: option.splits)

lemma fire_frame:
  "messages (fire i s) = messages s \<and> pending (fire i s) = pending s
   \<and> fetching (fire i s) = fetching s \<and> issued (fire i s) = issued s
   \<and> ttlData (fire i s) = ttlData s"
  by (simp add: fire_def intervalCallback_def setTimeRemaining_frame clearInterval_def
        split: option.splits)

lemma fold_fire_frame:
  "messages (fold fire xs s) = messages s \<and> pending (fold fire xs s) = pending s
   \<and> fetching (fold fire xs s) = fetching s \<and> issued (fold fire xs s) = issued s
   \<and> ttlData (fold fire xs s) = ttlData s"
  by (induction xs arbitrary: s) (simp_all add: fire_frame)

lemma tick_frame:
  "messages (tick s) = messages s \<and> pending (tick s) = pending s
   \<and> fetching (tick s) = fetching s \<and> issued (tick s) = issued s"
  by (simp add: tick_def fold_fire_frame)

lemma tick_ttlData: "ttlData (tick s) = ttlData s"
  by (simp add: tick_def fold_fire_frame)

lemma ttlFetched_frame:
  "messages (ttlFetched t s) = messages s \<and> pending (ttlFetched t s) = pending s
   \<and> fetching (ttlFetched t s) = fetching s \<and> issued (ttlFetched t s) = issued s"
  by (simp add: ttlFetched_def ttlEffect_def setTimeRemaining_frame split: option.splits)

lemma onData_frame:
  "pending (onData e s) = pending s \<and> fetching (onData e s) = fetching s
   \<and> issued (onData e s) = issued s"
  by (cases e) (simp_all add: onData_def setQueryData_def routerPush_def split: option.splits)

lemma step_quiet_timerOf:
  assumes "quiet ev" "\<not> isTick ev" "ttlData s = Some d"
  shows "timerOf (step u r ev s) = timerOf s"
proof (cases ev)
  case Tick
  then show ?thesis using assms by (simp add: isTick_def)
next
  case (Realtime e)
  then show ?thesis using assms
    by (cases e) (simp_all add: quiet_def step_def onData_def setQueryData_def timerOf_def
          split: option.splits)
next
  case (TtlAnswer t)
  then show ?thesis using assms by (simp add: step_def ttlFetched_def)
next
  case Refetch
  then show ?thesis by (simp add: step_def invalidateQueries_def timerOf_def split: option.splits)
next
  case (Fetched tok ms)
  then show ?thesis by (simp add: step_def fetchResolved_def timerOf_def)
next
  case (FetchError tok)
  then show ?thesis by (simp add: step_def fetchFailed_def timerOf_def)
next
  case (Send nm now)
  then show ?thesis by (simp add: step_Send onMutate_fst timerOf_def)
next
  case (SendError i)
  then show ?thesis
    by (simp add: step_def onError_def setQueryData_def dropPending_def timerOf_def
          split: option.splits)
next
  case (SendOk i)
  then show ?thesis
    by (simp add: step_def onSuccess_def invalidateQueries_def dropPending_def timerOf_def
          split: option.splits)
next
  case Unmount
  then show ?thesis using assms by (simp add: quiet_def)
qed

lemma run_quiet_timerOf:
  "ttlData s = Some d \<Longrightarrow> list_all quiet evs \<Longrightarrow>
     timerOf (run u r evs s) = timerOf (ticks (tickCount evs) s)"
proof (induction evs arbitrary: s)
  case Nil
  then show ?case by (simp add: tickCount_def)
next
  case (Cons ev evs)
  from Cons.prems(2) have q: "quiet ev" and rest: "list_all quiet evs" by simp_all
  show ?case
  proof (cases "isTick ev")
    case True
    then have ev: "ev = Tick" by (cases ev) (simp_all add: isTick_def)
    have "ttlData (tick s) = Some d" using Cons.prems(1) by (simp add: tick_ttlData)
    from Cons.IH [OF this rest] show ?thesis
      using True by (simp add: ev step_def tickCount_def)
  next
    case False
    have same: "timerOf (step u r ev s) = timerOf s"
      using q False Cons.prems(1) by (rule step_quiet_timerOf)
    then have "ttlData (step u r ev s) = Some d"
      using Cons.prems(1) by (simp add: timerOf_def)
    from Cons.IH [OF this rest]
    have "timerOf (run u r (ev # evs) s) = timerOf (ticks (tickCount evs) (step u r ev s))"
      by simp
    also have "\<dots> = timerOf (ticks (tickCount evs) s)"
      using same by (rule ticks_timerOf)
    finally show ?thesis using False by (simp add: tickCount_def)
  qed
qed

text \<open>
  Claim C6, as amended. Let the countdown be armed at a whole number \<open>n\<close> with
  \<open>0 \<le> n \<le> 2^53\<close>, the range in which the page's numbers count exactly. After \<open>k \<le> n\<close>
  ticks the value is \<open>n - k\<close>, so each tick on a positive value takes exactly one off;
  before the \<open>n\<close>-th tick no navigation was issued; after \<open>n\<close> ticks, and after any larger
  number of them, the value is 0, no interval is live and exactly one navigation to the
  destroyed page was issued. Whatever else happens to the page in between, as long as no
  destroy signal arrives and the page is not left, the value and the navigations issued
  are those after the same number of ticks alone.
\<close>

theorem countdown_expires_once:
  assumes "0 \<le> n" "n \<le> 2 ^ 53"
  shows "(\<forall>k. int k \<le> n \<longrightarrow> timeRemaining (ticks k (armed n)) = Some (n - int k))
       \<and> (\<forall>k. int k < n \<longrightarrow> pushes (ticks k (armed n)) = [])
       \<and> (\<forall>k. n \<le> int k \<longrightarrow>
             timeRemaining (ticks k (armed n)) = Some 0
             \<and> intervals (ticks k (armed n)) = []
             \<and> pushes (ticks k (armed n)) = [destroyedUrl])
       \<and> (\<forall>u r evs. list_all quiet evs \<longrightarrow>
             timeRemaining (run u r evs (armed n))
               = timeRemaining (ticks (tickCount evs) (armed n))
             \<and> pushes (run u r evs (armed n)) = pushes (ticks (tickCount evs) (armed n)))"
proof -
  have 4: "timeRemaining (run u r evs (armed n))
               = timeRemaining (ticks (tickCount evs) (armed n))
             \<and> pushes (run u r evs (armed n)) = pushes (ticks (tickCount evs) (armed n))"
    if "list_all quiet evs" for u r evs
    using run_quiet_timerOf [OF armed_ttlData that, of u r] by (simp add: timerOf_def)
  show ?thesis
  proof (cases "n = 0")
    case True
    have "intervals (armed 0) = []" by (simp add: armed_zero)
    then have "ticks k (armed 0) = armed 0" for k by (rule ticks_idle)
    then have "(\<forall>k. int k \<le> n \<longrightarrow> timeRemaining (ticks k (armed n)) = Some (n - int k))
       \<and> (\<forall>k. int k < n \<longrightarrow> pushes (ticks k (armed n)) = [])
       \<and> (\<forall>k. n \<le> int k \<longrightarrow>
             timeRemaining (ticks k (armed n)) = Some 0
             \<and> intervals (ticks k (armed n)) = []
             \<and> pushes (ticks k (armed n)) = [destroyedUrl])"
      using True by (simp add: armed_zero)
    with 4 show ?thesis by blast
  next
    case False
    then have pos: "0 < n" using assms by simp
    have c: "counting (armed n) n" and p: "pushes (armed n) = []"
      using armed_pos [OF pos assms(2)] by simp_all
    have before: "counting (ticks k (armed n)) (n - int k) \<and> pushes (ticks k (armed n)) = []"
      if "int k < n" for k
      using ticks_counting [OF c that assms(2)] p by simp
    have after: "timeRemaining (ticks k (armed n)) = Some 0 \<and> intervals (ticks k (armed n)) = []
        \<and> pushes (ticks k (armed n)) = [destroyedUrl]" if "n \<le> int k" for k
      using ticks_expire [OF c pos assms(2) that] p by simp
    have 1: "timeRemaining (ticks k (armed n)) = Some (n - int k)" if "int k \<le> n" for k
    proof (cases "int k < n")
      case True
      then show ?thesis using before [of k] by (simp add: counting_def)
    next
      case False
      with that have nk: "n \<le> int k" and z: "n - int k = 0" by simp_all
      show ?thesis unfolding z using after [OF nk] by simp
    qed
    have 2: "pushes (ticks k (armed n)) = []" if "int k < n" for k
      using before [OF that] by simp
    from 1 2 after 4 show ?thesis by blast
  qed
qed

text \<open>
  Armed at 5: value 2 after three ticks, one navigation after five and after nine; and
  one navigation after five ticks with a pushed message, a send and a fetch in between.
\<close>

theorem countdown_expires_once_witness:
  "(0::int) \<le> 5 \<and> (5::int) \<le> 2 ^ 53
   \<and> timeRemaining (ticks 3 (armed 5)) = Some 2
   \<and> pushes (ticks 4 (armed 5)) = []
   \<and> timeRemaining (ticks 5 (armed 5)) = Some 0
   \<and> pushes (ticks 5 (armed 5)) = [destroyedUrl]
   \<and> timeRemaining (ticks 9 (armed 5)) = Some 0
   \<and> pushes (ticks 9 (armed 5)) = [destroyedUrl]
   \<and> pushes (run ''me'' ''r1''
        [Tick, Realtime (ChatMessage (sampleMessage ''m1'' ''yo'')), Tick, Tick,
         Send (sampleDraft ''x'' ''hi'') 2000, Tick, Refetch, Tick, SendOk ''x'']
        (armed 5)) = [destroyedUrl]"
proof -
  let ?evs = "[Tick, Realtime (ChatMessage (sampleMessage ''m1'' ''yo'')), Tick, Tick,
         Send (sampleDraft ''x'' ''hi'') 2000, Tick, Refetch, Tick, SendOk ''x'']"
  have h: "(0::int) \<le> 5" and h': "(5::int) \<le> 2 ^ 53" by simp_all
  note c = countdown_expires_once [OF h h']
  have q: "list_all quiet ?evs" and k: "tickCount ?evs = 5"
    by (simp_all add: quiet_def tickCount_def isTick_def)
  have "timeRemaining (ticks 3 (armed 5)) = Some (5 - int 3)"
    using c by simp
  moreover have "pushes (ticks 4 (armed 5)) = []"
    using c by simp
  moreover have 5: "timeRemaining (ticks 5 (armed 5)) = Some 0 \<and> pushes (ticks 5 (armed 5)) = [destroyedUrl]"
    using c by simp
  moreover have "timeRemaining (ticks 9 (armed 5)) = Some 0 \<and> pushes (ticks 9 (armed 5)) = [destroyedUrl]"
    using c by simp
  moreover have "pushes (run ''me'' ''r1'' ?evs (armed 5)) = pushes (ticks (tickCount ?evs) (armed 5))"
    using c q by blast
  ultimately show ?thesis unfolding k by simp
qed

text \<open>
  The claim as written fails for large values: armed at \<open>2^54\<close>, the subtraction of 1
  yields \<open>2^54\<close> again, so a tick leaves the value where it was, and so do three ticks;
  the countdown never reaches 0.
\<close>

theorem countdown_stalls_at_large_value:
  "timeRemaining (armed (2 ^ 54)) = Some (2 ^ 54)
   \<and> timeRemaining (tick (armed (2 ^ 54))) = Some (2 ^ 54)
   \<and> timeRemaining (ticks 3 (armed (2 ^ 54))) = Some (2 ^ 54)
   \<and> pushes (ticks 3 (armed (2 ^ 54))) = []"
proof -
  have r: "roundDouble 18014398509481984 = 18014398509481984" by code_simp
  have c: "counting (armed (2 ^ 54)) (2 ^ 54)" and p: "pushes (armed (2 ^ 54)) = []"
    by (simp_all add: armed_state r initial_def setTimeRemaining_def cleanup_def
          countdownEffect_def counting_def)
  have big: "(1::int) < 2 ^ 54" by simp
  have "ticks k (armed (2 ^ 54)) = armed (2 ^ 54)" for k
    using c big jsMinus_stall by (rule ticks_stall)
  from this [of 3] this [of 1] c p show ?thesis by (simp add: counting_def)
qed

lemma step_keeps_idle_timer:
  assumes "ttlData s = Some d" "intervals s = []"
  shows "timeRemaining (step u r ev s) = timeRemaining s
       \<and> intervals (step u r ev s) = [] \<and> ttlData (step u r ev s) = Some d"
proof (cases ev)
  case Tick
  then show ?thesis using assms by (simp add: step_def tick_idle)
next
  case (Realtime e)
  then show ?thesis using assms
    by (cases e) (simp_all add: step_def onData_def setQueryData_def routerPush_def
          split: option.splits)
next
  case (TtlAnswer t)
  then show ?thesis using assms by (simp add: step_def ttlFetched_def)
next
  case Refetch
  then show ?thesis using assms
    by (simp add: step_def invalidateQueries_def split: option.splits)
next
  case (Fetched tok ms)
  then show ?thesis using assms by (simp add: step_def fetchResolved_def)
next
  case (FetchError tok)
  then show ?thesis using assms by (simp add: step_def fetchFailed_def)
next
  case (Send nm now)
  then show ?thesis using assms by (simp add: step_Send onMutate_fst)
next
  case (SendError i)
  then show ?thesis using assms
    by (simp add: step_def onError_def setQueryData_def dropPending_def split: option.splits)
next
  case (SendOk i)
  then show ?thesis using assms
    by (simp add: step_def onSuccess_def invalidateQueries_def dropPending_def
          split: option.splits)
next
  case Unmount
  then show ?thesis using assms
    by (simp add: step_def unmount_def cleanup_def clearInterval_def split: option.splits)
qed

lemma run_keeps_idle_timer:
  "ttlData s = Some d \<Longrightarrow> intervals s = [] \<Longrightarrow>
     timeRemaining (run u r evs s) = timeRemaining s \<and> intervals (run u r evs s) = []"
proof (induction evs arbitrary: s)
  case Nil
  then show ?case by simp
next
  case (Cons ev evs)
  note k = step_keeps_idle_timer [OF Cons.prems, of u r ev]
  from k have "timeRemaining (run u r evs (step u r ev s)) = timeRemaining (step u r ev s)
      \<and> intervals (run u r evs (step u r ev s)) = []"
    by (intro Cons.IH) simp_all
  with k show ?case by simp
qed

text \<open>
  Claim C8, as amended. Armed with a negative TTL \<open>n\<close>, the countdown is inert: it holds
  the negative value (\<open>n\<close> itself down to \<open>-2^53\<close>), starts no interval and issues no
  navigation; no number of ticks changes the page; whatever else happens to the page
  (realtime events, fetches, sends, a further TTL answer, leaving the page), the value
  stays as it is and no interval is ever started; and unless a destroy signal arrives,
  no navigation is ever issued: the room is not treated as expired, the page stays open.
\<close>

theorem negative_ttl_is_inert:
  assumes "n < 0"
  shows "timeRemaining (armed n) = Some (roundDouble n) \<and> roundDouble n < 0
       \<and> (- (2 ^ 53) < n \<longrightarrow> roundDouble n = n)
       \<and> intervals (armed n) = [] \<and> pushes (armed n) = []
       \<and> ticks k (armed n) = armed n
       \<and> timeRemaining (run u r evs (armed n)) = Some (roundDouble n)
       \<and> intervals (run u r evs (armed n)) = []
       \<and> (list_all quiet evs \<longrightarrow> pushes (run u r evs (armed n)) = [])"
proof -
  have a: "armed n = initial\<lparr> ttlData := Some (roundDouble n),
                              timeRemaining := Some (roundDouble n) \<rparr>"
    using assms by (rule armed_neg)
  have i: "intervals (armed n) = []" and d: "ttlData (armed n) = Some (roundDouble n)"
    and t: "timeRemaining (armed n) = Some (roundDouble n)" and p: "pushes (armed n) = []"
    unfolding a by (simp_all add: initial_def)
  have neg: "roundDouble n < 0" using assms by (rule roundDouble_neg)
  have exact: "roundDouble n = n" if "- (2 ^ 53) < n"
    using that assms by (intro roundDouble_exact) simp
  have k: "ticks k (armed n) = armed n" for k using i by (rule ticks_idle)
  have "pushes (run u r evs (armed n)) = []" if "list_all quiet evs"
    using run_quiet_timerOf [OF d that, of u r] p by (simp add: timerOf_def k)
  with i t p neg exact k run_keeps_idle_timer [OF d i, of u r evs] show ?thesis by simp
qed

text \<open>
  A TTL of -2: three ticks, a second TTL answer, a pushed message and a fetch later the
  value is still -2, no interval runs and no navigation was issued.
\<close>

theorem negative_ttl_is_inert_witness:
  "(-2::int) < 0
   \<and> ticks 3 (armed (-2)) = armed (-2)
   \<and> timeRemaining (run ''me'' ''r1''
        [Tick, TtlAnswer 30, Realtime (ChatMessage (sampleMessage ''m1'' ''yo'')), Refetch, Tick]
        (armed (-2))) = Some (-2)
   \<and> intervals (run ''me'' ''r1''
        [Tick, TtlAnswer 30, Realtime (ChatMessage (sampleMessage ''m1'' ''yo'')), Refetch, Tick]
        (armed (-2))) = []
   \<and> pushes (run ''me'' ''r1''
        [Tick, TtlAnswer 30, Realtime (ChatMessage (sampleMessage ''m1'' ''yo'')), Refetch, Tick]
        (armed (-2))) = []"
proof -
  let ?evs = "[Tick, TtlAnswer 30, Realtime (ChatMessage (sampleMessage ''m1'' ''yo'')),
      Refetch, Tick]"
  have h: "(-2::int) < 0" by simp
  have q: "list_all quiet ?evs" by (simp add: quiet_def)
  have b: "- (2 ^ 53) < (-2::int)" by simp
  note t = negative_ttl_is_inert [OF h, of 3 "''me''" "''r1''" ?evs]
  from t b have "roundDouble (-2) = -2" by blast
  with t q h show ?thesis by simp
qed

text \<open>
  The claim as written fails in its first part: expiry at 0 issues the navigation away
  from the room, a negative TTL issues none, at arming or after any ticks.
\<close>

theorem negative_ttl_issues_no_teardown:
  "pushes (armed 0) = [destroyedUrl]
   \<and> timeRemaining (armed (-2)) = Some (-2)
   \<and> pushes (armed (-2)) = []
   \<and> pushes (ticks 3 (armed (-2))) = []"
proof -
  have n: "(-2::int) < 0" by simp
  have r: "roundDouble (-2) = -2" by (rule roundDouble_exact) simp
  have a: "armed (-2) = initial\<lparr> ttlData := Some (-2), timeRemaining := Some (-2) \<rparr>"
    using armed_neg [OF n] by (simp only: r)
  have "intervals (armed (-2)) = []" unfolding a by (simp add: initial_def)
  then have "ticks 3 (armed (-2)) = armed (-2)" by (rule ticks_idle)
  then show ?thesis using armed_zero by (simp add: a initial_def)
qed

section \<open>The destroy signal\<close>

lemma timerOk_frame:
  "intervals a = intervals b \<Longrightarrow> effectInterval a = effectInterval b \<Longrightarrow>
     timerOk a = timerOk b"
  by (simp add: timerOk_def split: option.splits)

lemma setTimeRemaining_timerOk: "timerOk s \<Longrightarrow> timerOk (setTimeRemaining v s)"
  by (auto simp: timerOk_def setTimeRemaining_def cleanup_def clearInterval_def
        countdownEffect_def routerPush_def split: option.splits)

lemma clearInterval_timerOk: "timerOk s \<Longrightarrow> timerOk (clearInterval i s)"
  by (auto simp: timerOk_def clearInterval_def split: option.splits if_splits)

lemma intervalCallback_timerOk: "timerOk s \<Longrightarrow> timerOk (intervalCallback i s)"
  by (simp add: intervalCallback_def setTimeRemaining_timerOk clearInterval_timerOk
        split: option.splits)

lemma tick_timerOk: "timerOk s \<Longrightarrow> timerOk (tick s)"
proof (cases "intervals s")
  case Nil
  assume "timerOk s"
  then show ?thesis using Nil by (simp add: tick_idle)
next
  case (Cons i xs)
  assume ok: "timerOk s"
  with Cons have "intervals s = [i]" by (auto simp: timerOk_def split: option.splits)
  then show ?thesis using ok by (simp add: tick_single intervalCallback_timerOk)
qed

lemma step_timerOk:
  assumes "timerOk s"
  shows "timerOk (step u r ev s)"
proof (cases ev)
  case Tick
  then show ?thesis using assms by (simp add: step_def tick_timerOk)
next
  case (Realtime e)
  have "timerOk (onData e s) = timerOk s"
    by (rule timerOk_frame)
       (cases e; simp add: onData_def setQueryData_def routerPush_def split: option.splits)+
  then show ?thesis using assms Realtime by (simp add: step_def)
next
  case (TtlAnswer t)
  show ?thesis
  proof (cases "ttlData s")
    case None
    have "timerOk (s\<lparr> ttlData := Some (roundDouble t) \<rparr>) = timerOk s"
      by (rule timerOk_frame) simp_all
    then have "timerOk (setTimeRemaining (roundDouble t) (s\<lparr> ttlData := Some (roundDouble t) \<rparr>))"
      using assms by (intro setTimeRemaining_timerOk) simp
    then show ?thesis using None TtlAnswer by (simp add: step_def ttlFetched_def ttlEffect_def)
  next
    case (Some d)
    then show ?thesis using assms TtlAnswer by (simp add: step_def ttlFetched_def)
  qed
next
  case Refetch
  have "timerOk (invalidateQueries s) = timerOk s"
    by (rule timerOk_frame) (simp_all add: invalidateQueries_def split: option.splits)
  then show ?thesis using assms Refetch by (simp add: step_def)
next
  case (Fetched tok ms)
  have "timerOk (fetchResolved tok ms s) = timerOk s"
    by (rule timerOk_frame) (simp_all add: fetchResolved_def)
  then show ?thesis using assms Fetched by (simp add: step_def)
next
  case (FetchError tok)
  have "timerOk (fetchFailed tok s) = timerOk s"
    by (rule timerOk_frame) (simp_all add: fetchFailed_def)
  then show ?thesis using assms FetchError by (simp add: step_def)
next
  case (Send nm now)
  have "timerOk (step u r (Send nm now) s) = timerOk s"
    by (rule timerOk_frame) (simp_all add: step_Send onMutate_fst)
  then show ?thesis using assms Send by simp
next
  case (SendError i)
  have "timerOk (step u r (SendError i) s) = timerOk s"
    by (rule timerOk_frame)
       (simp_all add: step_def onError_def setQueryData_def dropPending_def split: option.splits)
  then show ?thesis using assms SendError by simp
next
  case (SendOk i)
  have "timerOk (step u r (SendOk i) s) = timerOk s"
    by (rule timerOk_frame)
       (simp_all add: step_def onSuccess_def invalidateQueries_def dropPending_def
          split: option.splits)
  then show ?thesis using assms SendOk by simp
next
  case Unmount
  then show ?thesis using assms
    by (auto simp: step_def unmount_def cleanup_def clearInterval_def timerOk_def
          split: option.splits)
qed

lemma run_timerOk: "timerOk s \<Longrightarrow> timerOk (run u r evs s)"
  by (induction evs arbitrary: s) (simp_all add: step_timerOk)

lemma unmount_clears: "timerOk s \<Longrightarrow> intervals (unmount s) = []"
  by (auto simp: timerOk_def unmount_def cleanup_def clearInterval_def split: option.splits)

text \<open>
  Claim C7, as amended. From every page state a \<open>chat.destroy\<close> event issues at once one
  navigation to the destroyed page, the navigation the countdown issues when it observes
  0, and changes nothing else. The handler does not clear the interval. In every state
  the page can reach, the only live interval is the one the countdown effect's cleanup
  clears; so once the page is left after the destroy signal, no interval is live and no
  tick changes the page any more.
\<close>

theorem destroy_navigates_and_unmount_stops_ticks:
  "onData ChatDestroy s = s\<lparr> pushes := pushes s @ [destroyedUrl] \<rparr>
   \<and> countdownEffect (s\<lparr> timeRemaining := Some 0 \<rparr>)
       = s\<lparr> timeRemaining := Some 0, effectInterval := None,
            pushes := pushes s @ [destroyedUrl] \<rparr>
   \<and> intervals (onData ChatDestroy s) = intervals s
   \<and> timerOk (run u r evs initial)
   \<and> ticks k (unmount (onData ChatDestroy (run u r evs initial)))
       = unmount (onData ChatDestroy (run u r evs initial))
   \<and> (timerOk s \<longrightarrow>
        ticks k (unmount (onData ChatDestroy s)) = unmount (onData ChatDestroy s))"
proof -
  have d: "onData ChatDestroy t = t\<lparr> pushes := pushes t @ [destroyedUrl] \<rparr>" for t
    by (simp add: onData_def routerPush_def)
  have "timerOk initial" by (simp add: timerOk_def initial_def)
  then have r: "timerOk (run u r evs initial)" by (rule run_timerOk)
  have u: "ticks k (unmount (onData ChatDestroy s)) = unmount (onData ChatDestroy s)"
    if "timerOk s" for s
  proof -
    have "timerOk (onData ChatDestroy s) = timerOk s"
      by (rule timerOk_frame) (simp_all add: d)
    with that have "timerOk (onData ChatDestroy s)" by simp
    then have "intervals (unmount (onData ChatDestroy s)) = []" by (rule unmount_clears)
    then show ?thesis by (rule ticks_idle)
  qed
  from d r u [OF r] u [of s] show ?thesis
    by (simp add: countdownEffect_def routerPush_def)
qed

text \<open>
  Armed at 300, then destroyed and left: five ticks later the page is as it was left.
\<close>

theorem destroy_navigates_and_unmount_stops_ticks_witness:
  "timerOk (armed 300)
   \<and> pushes (onData ChatDestroy (armed 300)) = [destroyedUrl]
   \<and> ticks 5 (unmount (onData ChatDestroy (armed 300)))
       = unmount (onData ChatDestroy (armed 300))"
proof -
  have c: "counting (armed 300) 300" and p: "pushes (armed 300) = []"
    using armed_pos [of 300] by simp_all
  then have ok: "timerOk (armed 300)"
    by (simp add: counting_def timerOk_def split: option.splits)
  note t = destroy_navigates_and_unmount_stops_ticks [of "armed 300" "''me''" "''r1''" "[]" 5]
  from t ok have "ticks 5 (unmount (onData ChatDestroy (armed 300)))
       = unmount (onData ChatDestroy (armed 300))"
    by blast
  moreover from t p have "pushes (onData ChatDestroy (armed 300)) = [destroyedUrl]"
    by simp
  ultimately show ?thesis using ok by simp
qed

text \<open>
  The claim as written fails while the page is still mounted: armed at 300, a tick after
  the destroy signal still counts down to 299 and leaves an interval live; armed at 1, a
  tick after the destroy signal reaches 0 and issues a second navigation.
\<close>

theorem destroy_leaves_interval_ticking:
  "timeRemaining (tick (onData ChatDestroy (armed 300))) = Some 299
   \<and> intervals (tick (onData ChatDestroy (armed 300))) \<noteq> []
   \<and> pushes (tick (onData ChatDestroy (armed 1))) = [destroyedUrl, destroyedUrl]"
proof -
  have d: "onData ChatDestroy s = s\<lparr> pushes := pushes s @ [destroyedUrl] \<rparr>" for s
    by (simp add: onData_def routerPush_def)
  have c: "counting (onData ChatDestroy s) q = counting s q" for s q
    by (cases "effectInterval s") (simp_all add: d counting_def)
  have a: "counting (onData ChatDestroy (armed 300)) 300"
    using armed_pos [of 300] by (simp add: c)
  have b: "counting (onData ChatDestroy (armed 1)) 1"
    and p: "pushes (onData ChatDestroy (armed 1)) = [destroyedUrl]"
    using armed_pos [of 1] by (simp_all add: c) (simp add: d)
  have "counting (tick (onData ChatDestroy (armed 300))) (300 - 1)"
    using tick_counting [OF a] by simp
  then have "timeRemaining (tick (onData ChatDestroy (armed 300))) = Some 299
      \<and> intervals (tick (onData ChatDestroy (armed 300))) \<noteq> []"
    by (auto simp: counting_def split: option.splits)
  with tick_last [OF b] p show ?thesis by simp
qed

section \<open>Uniqueness of message ids\<close>

lemma uniqueIds_append:
  "uniqueIds c \<Longrightarrow> msg_id m \<notin> set (ids c) \<Longrightarrow> uniqueIds (Some (messagesOf c @ [m]))"
  by (simp add: uniqueIds_def ids_def)

lemma onData_uniqueIds: "uniqueIds (messages s) \<Longrightarrow> uniqueIds (messages (onData e s))"
proof (cases e)
  case (ChatMessage m)
  assume u: "uniqueIds (messages s)"
  show ?thesis
  proof (cases "msg_id m \<in> msg_id ` set (messagesOf (messages s))")
    case True
    then show ?thesis using u ChatMessage by (simp add: onData_message_present)
  next
    case False
    then have "msg_id m \<notin> set (ids (messages s))" by (simp add: ids_def)
    from uniqueIds_append [OF u this] False show ?thesis
      using ChatMessage by (simp add: onData_message_absent)
  qed
next
  case ChatDestroy
  assume "uniqueIds (messages s)"
  then show ?thesis using ChatDestroy by (simp add: onData_def routerPush_def)
qed

lemma snapshotsUnique_dropPending:
  "snapshotsUnique s \<Longrightarrow> snapshotsUnique (dropPending i s)"
  by (simp add: snapshotsUnique_def dropPending_def list_all_iff)

lemma snapshotsUnique_lookup:
  "snapshotsUnique s \<Longrightarrow> map_of (pending s) i = Some c \<Longrightarrow> uniqueIds c"
proof -
  assume all: "snapshotsUnique s" and "map_of (pending s) i = Some c"
  then have "(i, c) \<in> set (pending s)" by (intro map_of_SomeD)
  with all have "uniqueIds (snd (i, c))" unfolding snapshotsUnique_def list_all_iff by blast
  then show ?thesis by simp
qed

lemma step_keeps_unique:
  assumes u: "uniqueIds (messages s)" and p: "snapshotsUnique s" and a: "allowed ev s"
  shows "uniqueIds (messages (step u' r ev s)) \<and> snapshotsUnique (step u' r ev s)"
proof (cases ev)
  case Tick
  then show ?thesis using u p by (simp add: step_def tick_frame snapshotsUnique_def)
next
  case (Realtime e)
  then show ?thesis using onData_uniqueIds [OF u, of e] p
    by (simp add: step_def onData_frame snapshotsUnique_def)
next
  case (TtlAnswer t)
  then show ?thesis using u p by (simp add: step_def ttlFetched_frame snapshotsUnique_def)
next
  case Refetch
  then show ?thesis using u p
    by (simp add: step_def invalidateQueries_frame snapshotsUnique_def)
next
  case (Fetched tok ms)
  then have "distinct (map msg_id ms)" using a by (simp add: allowed_def)
  then show ?thesis using u p Fetched
    by (simp add: step_def fetchResolved_def snapshotsUnique_def uniqueIds_def ids_def)
next
  case (FetchError tok)
  then show ?thesis using u p by (simp add: step_def fetchFailed_def snapshotsUnique_def)
next
  case (Send nm now)
  then have "nm_id nm \<notin> set (ids (messages s))" using a by (simp add: allowed_def)
  then have "msg_id (optimisticMessage u' r now nm) \<notin> set (ids (messages s))"
    by (simp add: optimisticMessage_def)
  from uniqueIds_append [OF u this] show ?thesis using u p Send
    by (simp add: step_Send onMutate_fst snapshotsUnique_def)
next
  case (SendError i)
  show ?thesis
  proof (cases "map_of (pending s) i")
    case None
    then show ?thesis using u p SendError by (simp add: step_def)
  next
    case (Some c)
    have d: "snapshotsUnique (dropPending i s)" using p by (rule snapshotsUnique_dropPending)
    have m: "messages (dropPending i s) = messages s" by (simp add: dropPending_def)
    have c: "uniqueIds c" using p Some by (rule snapshotsUnique_lookup)
    show ?thesis using u d m c Some SendError
      by (cases c) (simp_all add: step_def onError_def setQueryData_def snapshotsUnique_def)
  qed
next
  case (SendOk i)
  show ?thesis
  proof (cases "map_of (pending s) i")
    case None
    then show ?thesis using u p SendOk by (simp add: step_def)
  next
    case (Some c)
    have d: "snapshotsUnique (dropPending i s)" using p by (rule snapshotsUnique_dropPending)
    have m: "messages (dropPending i s) = messages s" by (simp add: dropPending_def)
    show ?thesis using u d m Some SendOk
      by (simp add: step_def onSuccess_def invalidateQueries_frame snapshotsUnique_def)
  qed
next
  case Unmount
  then show ?thesis using u p by (simp add: step_def unmount_def cleanup_frame snapshotsUnique_def)
qed

lemma run_keeps_unique:
  "uniqueIds (messages s) \<Longrightarrow> snapshotsUnique s \<Longrightarrow> admissible u r evs s \<Longrightarrow>
     uniqueIds (messages (run u r evs s))"
proof (induction evs arbitrary: s)
  case Nil
  then show ?case by simp
next
  case (Cons ev evs)
  from Cons.prems(3) have a: "allowed ev s" and rest: "admissible u r evs (step u r ev s)"
    by (simp_all split: if_splits)
  from step_keeps_unique [OF Cons.prems(1,2) a, of u r] rest show ?case
    by (simp add: Cons.IH)
qed

lemma admissible_take: "admissible u r evs s \<Longrightarrow> admissible u r (take k evs) s"
proof (induction evs arbitrary: s k)
  case Nil
  then show ?case by simp
next
  case (Cons ev evs)
  then show ?case by (cases k) (simp_all split: if_splits)
qed

lemma count_fresh: "i \<notin> msg_id ` set ms \<Longrightarrow> filter (\<lambda>x. msg_id x = i) ms = []"
  by (induction ms) auto

text \<open>
  Claim C5, as amended. Start from the initial page and let any events happen, where each
  send draws an id the page does not show yet and each fetch answer names no id twice.
  Then in every state the page passes through, no two entries of the message list share
  an id. In particular, for a page that does not show id \<open>b\<close> yet: after the optimistic
  send of \<open>b\<close>, a pushed \<open>chat.message\<close> for \<open>b\<close> and then the success of the send, the list
  holds exactly one entry with id \<open>b\<close>.
\<close>

theorem message_ids_stay_unique:
  "(admissible u r evs initial \<longrightarrow>
      (\<forall>k. uniqueIds (messages (run u r (take k evs) initial))))
   \<and> (nm_id nm = b \<and> msg_id m = b \<and> b \<notin> set (ids (messages s)) \<longrightarrow>
        length (filter (\<lambda>x. msg_id x = b)
          (messagesOf (messages
            (run u r [Send nm now, Realtime (ChatMessage m), SendOk b] s)))) = 1)"
proof (intro conjI impI allI)
  fix k
  assume "admissible u r evs initial"
  then have "admissible u r (take k evs) initial" by (rule admissible_take)
  moreover have "uniqueIds (messages initial)" "snapshotsUnique initial"
    by (simp_all add: initial_def uniqueIds_def ids_def snapshotsUnique_def)
  ultimately show "uniqueIds (messages (run u r (take k evs) initial))"
    by (intro run_keeps_unique)
next
  assume h: "nm_id nm = b \<and> msg_id m = b \<and> b \<notin> set (ids (messages s))"
  let ?s1 = "step u r (Send nm now) s"
  have m1: "messages ?s1 = Some (messagesOf (messages s) @ [optimisticMessage u r now nm])"
    by (simp add: step_Send onMutate_fst)
  then have "msg_id m \<in> msg_id ` set (messagesOf (messages ?s1))"
    using h by (simp add: optimisticMessage_def)
  then have s2: "step u r (Realtime (ChatMessage m)) ?s1 = ?s1"
    by (simp add: step_def onData_message_present)
  have s3: "messages (step u r (SendOk b) ?s1) = messages ?s1"
    by (simp add: step_def onSuccess_def invalidateQueries_frame dropPending_frame
          split: option.splits)
  have "filter (\<lambda>x. msg_id x = b) (messagesOf (messages s)) = []"
    using h by (intro count_fresh) (simp add: ids_def)
  then show "length (filter (\<lambda>x. msg_id x = b)
          (messagesOf (messages
            (run u r [Send nm now, Realtime (ChatMessage m), SendOk b] s)))) = 1"
    using h by (simp add: s2 s3 m1 optimisticMessage_def)
qed

text \<open>
  A run with a first fetch, a send of \<open>b\<close>, the pushed copy of \<open>b\<close>, the success and the
  refetch; and the interleaving itself on a page showing \<open>m1\<close>.
\<close>

theorem message_ids_stay_unique_witness:
  "admissible ''me'' ''r1''
     [Refetch, Fetched 0 [sampleMessage ''m1'' ''yo''], Send (sampleDraft ''b'' ''hi'') 2000,
      Realtime (ChatMessage (sampleMessage ''b'' ''hi'')), SendOk ''b'',
      Fetched 1 [sampleMessage ''m1'' ''yo'', sampleMessage ''b'' ''hi'']] initial
   \<and> uniqueIds (messages (run ''me'' ''r1'' (take 4
     [Refetch, Fetched 0 [sampleMessage ''m1'' ''yo''], Send (sampleDraft ''b'' ''hi'') 2000,
      Realtime (ChatMessage (sampleMessage ''b'' ''hi'')), SendOk ''b'',
      Fetched 1 [sampleMessage ''m1'' ''yo'', sampleMessage ''b'' ''hi'']]) initial))
   \<and> length (filter (\<lambda>x. msg_id x = ''b'')
        (messagesOf (messages
          (run ''me'' ''r1''
             [Send (sampleDraft ''b'' ''hi'') 2000,
              Realtime (ChatMessage (sampleMessage ''b'' ''hi'')), SendOk ''b'']
             (initial\<lparr> messages := Some [sampleMessage ''m1'' ''yo''] \<rparr>))))) = 1"
proof -
  let ?evs = "[Refetch, Fetched 0 [sampleMessage ''m1'' ''yo''],
      Send (sampleDraft ''b'' ''hi'') 2000,
      Realtime (ChatMessage (sampleMessage ''b'' ''hi'')), SendOk ''b'',
      Fetched 1 [sampleMessage ''m1'' ''yo'', sampleMessage ''b'' ''hi'']]"
  let ?s = "initial\<lparr> messages := Some [sampleMessage ''m1'' ''yo''] \<rparr>"
  have adm: "admissible ''me'' ''r1'' ?evs initial"
    by (simp add: allowed_def step_def invalidateQueries_def fetchResolved_def initial_def
          ids_def sampleMessage_def sampleDraft_def step_Send onMutate_fst
          onData_message_present optimisticMessage_def)
  have fresh: "nm_id (sampleDraft ''b'' ''hi'') = ''b'' \<and> msg_id (sampleMessage ''b'' ''hi'') = ''b''
      \<and> ''b'' \<notin> set (ids (messages ?s))"
    by (simp add: sampleDraft_def sampleMessage_def ids_def)
  note t = message_ids_stay_unique [of "''me''" "''r1''" ?evs "sampleDraft ''b'' ''hi''" "''b''"
      "sampleMessage ''b'' ''hi''" ?s 2000]
  from t adm have "uniqueIds (messages (run ''me'' ''r1'' (take 4 ?evs) initial))"
    by blast
  moreover from t fresh have "length (filter (\<lambda>x. msg_id x = ''b'')
        (messagesOf (messages
          (run ''me'' ''r1''
             [Send (sampleDraft ''b'' ''hi'') 2000,
              Realtime (ChatMessage (sampleMessage ''b'' ''hi'')), SendOk ''b''] ?s)))) = 1"
    by blast
  ultimately show ?thesis using adm by blast
qed

text \<open>
  The claim as written, for every reachable state, fails: only the realtime merge looks
  for the id; the optimistic append and the storing of a fetch answer do not. A send
  whose id the page already shows, or a fetch answer that names an id twice, leaves two
  entries with one id.
\<close>

theorem unchecked_append_duplicates_id:
  "\<not> uniqueIds (messages (run ''me'' ''r1''
        [Realtime (ChatMessage (sampleMessage ''b'' ''hi'')),
         Send (sampleDraft ''b'' ''hi'') 2000] initial))
   \<and> \<not> uniqueIds (messages (run ''me'' ''r1''
        [Refetch, Fetched 0 [sampleMessage ''b'' ''hi'', sampleMessage ''b'' ''hi'']] initial))"
proof
  let ?b = "sampleMessage ''b'' ''hi''"
  have "msg_id ?b \<notin> msg_id ` set (messagesOf (messages initial))"
    by (simp add: initial_def)
  then have "onData (ChatMessage ?b) initial = initial\<lparr> messages := Some [?b] \<rparr>"
    by (simp add: onData_message_absent initial_def)
  then have "messages (run ''me'' ''r1''
        [Realtime (ChatMessage ?b), Send (sampleDraft ''b'' ''hi'') 2000] initial)
      = Some [?b, optimisticMessage ''me'' ''r1'' 2000 (sampleDraft ''b'' ''hi'')]"
    by (simp add: step_Send onMutate_fst) (simp add: step_def)
  then show "\<not> uniqueIds (messages (run ''me'' ''r1''
        [Realtime (ChatMessage ?b), Send (sampleDraft ''b'' ''hi'') 2000] initial))"
    by (simp add: uniqueIds_def ids_def optimisticMessage_def sampleMessage_def sampleDraft_def)
next
  let ?b = "sampleMessage ''b'' ''hi''"
  have "step ''me'' ''r1'' Refetch initial = initial\<lparr> fetching := Some 0, issued := 1 \<rparr>"
    by (simp add: step_Refetch invalidateQueries_def initial_def)
  then have "messages (run ''me'' ''r1'' [Refetch, Fetched 0 [?b, ?b]] initial) = Some [?b, ?b]"
    by (simp add: step_def fetchResolved_def)
  then show "\<not> uniqueIds (messages (run ''me'' ''r1'' [Refetch, Fetched 0 [?b, ?b]] initial))"
    by (simp add: uniqueIds_def ids_def)
qed

section \<open>Stale reads and the optimistic entry\<close>

lemma step_keeps_entry:
  assumes m: "x \<in> set (messagesOf (messages s))"
    and i: "n \<le> issued s"
    and f: "\<forall>k. fetching s = Some k \<longrightarrow> n \<le> k"
    and e: "predates n ev"
  shows "x \<in> set (messagesOf (messages (step u r ev s)))
       \<and> n \<le> issued (step u r ev s)
       \<and> (\<forall>k. fetching (step u r ev s) = Some k \<longrightarrow> n \<le> k)"
proof (cases ev)
  case Tick
  then show ?thesis using m i f by (simp add: step_def tick_frame)
next
  case (Realtime ev')
  have "x \<in> set (messagesOf (messages (onData ev' s)))"
  proof (cases ev')
    case (ChatMessage d)
    then show ?thesis using m
      by (cases "msg_id d \<in> msg_id ` set (messagesOf (messages s))")
         (simp_all add: onData_message_present onData_message_absent)
  next
    case ChatDestroy
    then show ?thesis using m by (simp add: onData_def routerPush_def)
  qed
  then show ?thesis using Realtime i f by (simp add: step_def onData_frame)
next
  case (TtlAnswer t)
  then show ?thesis using m i f by (simp add: step_def ttlFetched_frame)
next
  case Refetch
  then show ?thesis using m i f invalidateQueries_frame [of s]
    by (auto simp: step_def)
next
  case (Fetched tok ms)
  then have "tok < n" using e by (simp add: predates_def)
  then have "fetching s \<noteq> Some tok" using f by auto
  then show ?thesis using m i f Fetched by (simp add: step_def fetchResolved_def)
next
  case (FetchError tok)
  then show ?thesis using m i f by (simp add: step_def fetchFailed_def)
next
  case (Send nm now)
  then show ?thesis using m i f by (simp add: step_Send onMutate_fst)
next
  case (SendError j)
  then show ?thesis using e by (simp add: predates_def)
next
  case (SendOk j)
  then show ?thesis using m i f invalidateQueries_frame [of "dropPending j s"]
    by (auto simp: step_def onSuccess_def dropPending_frame split: option.splits)
next
  case Unmount
  then show ?thesis using m i f by (simp add: step_def unmount_def cleanup_frame)
qed

lemma run_keeps_entry:
  "x \<in> set (messagesOf (messages s)) \<Longrightarrow> n \<le> issued s \<Longrightarrow>
   \<forall>k. fetching s = Some k \<longrightarrow> n \<le> k \<Longrightarrow> list_all (predates n) evs \<Longrightarrow>
     x \<in> set (messagesOf (messages (run u r evs s)))"
proof (induction evs arbitrary: s)
  case Nil
  then show ?case by simp
next
  case (Cons ev evs)
  from Cons.prems(4) have e: "predates n ev" and rest: "list_all (predates n) evs"
    by simp_all
  note k = step_keeps_entry [OF Cons.prems(1,2,3) e, of u r]
  have "x \<in> set (messagesOf (messages (run u r evs (step u r ev s))))"
    using k rest by (intro Cons.IH) simp_all
  then show ?case by simp
qed

lemma step_keeps_tokens:
  assumes i: "n \<le> issued s" and f: "\<forall>k. fetching s = Some k \<longrightarrow> n \<le> k"
  shows "n \<le> issued (step u r ev s) \<and> (\<forall>k. fetching (step u r ev s) = Some k \<longrightarrow> n \<le> k)"
proof (cases ev)
  case Tick
  then show ?thesis using i f by (simp add: step_def tick_frame)
next
  case (Realtime e)
  then show ?thesis using i f by (simp add: step_def onData_frame)
next
  case (TtlAnswer t)
  then show ?thesis using i f by (simp add: step_def ttlFetched_frame)
next
  case Refetch
  then show ?thesis using i f invalidateQueries_frame [of s]
    by (auto simp: step_def)
next
  case (Fetched tok ms)
  then show ?thesis using i f by (simp add: step_def fetchResolved_def)
next
  case (FetchError tok)
  then show ?thesis using i f by (simp add: step_def fetchFailed_def)
next
  case (Send nm now)
  then show ?thesis using i f by (simp add: step_Send onMutate_fst)
next
  case (SendError j)
  then show ?thesis using i f
    by (simp add: step_def onError_def setQueryData_def dropPending_def split: option.splits)
next
  case (SendOk j)
  then show ?thesis using i f invalidateQueries_frame [of "dropPending j s"]
    by (auto simp: step_def onSuccess_def dropPending_frame split: option.splits)
next
  case Unmount
  then show ?thesis using i f by (simp add: step_def unmount_def cleanup_frame)
qed

lemma run_keeps_tokens:
  "n \<le> issued s \<Longrightarrow> \<forall>k. fetching s = Some k \<longrightarrow> n \<le> k \<Longrightarrow>
     \<forall>k. fetching (run u r evs s) = Some k \<longrightarrow> n \<le> k"
proof (induction evs arbitrary: s)
  case Nil
  then show ?case by simp
next
  case (Cons ev evs)
  note k = step_keeps_tokens [OF Cons.prems, of u r ev]
  have "\<forall>k. fetching (run u r evs (step u r ev s)) = Some k \<longrightarrow> n \<le> k"
    using k by (intro Cons.IH) simp_all
  then show ?case by simp
qed

text \<open>
  Claim C9. Whatever fetch of the messages query is in flight when the send starts,
  \<open>onMutate\<close> has cancelled it when it appends: after the append no fetch is in flight.
  From then on, whatever happens to the page, the answer to a fetch issued before the
  append changes nothing when it arrives. And in every run after the send in which no
  send fails and the only fetch answers that arrive are answers to fetches issued before
  the append, the optimistic entry stays in the message list.
\<close>

theorem stale_fetch_never_overwrites_optimistic_entry:
  "fetching (step u r (Send nm now) s) = None
   \<and> (\<forall>tok ms evs. tok < issued s \<longrightarrow>
        step u r (Fetched tok ms) (run u r evs (step u r (Send nm now) s))
          = run u r evs (step u r (Send nm now) s))
   \<and> (list_all (predates (issued s)) evs \<longrightarrow>
        optimisticMessage u r now nm
          \<in> set (messagesOf (messages (run u r evs (step u r (Send nm now) s)))))"
proof (intro conjI allI impI)
  let ?s1 = "step u r (Send nm now) s"
  show f: "fetching ?s1 = None"
    by (simp add: step_Send onMutate_fst)
  have i: "issued ?s1 = issued s"
    and m: "optimisticMessage u r now nm \<in> set (messagesOf (messages ?s1))"
    by (simp_all add: step_Send onMutate_fst)
  {
    fix tok ms evs'
    assume t: "tok < issued s"
    have "\<forall>k. fetching (run u r evs' ?s1) = Some k \<longrightarrow> issued s \<le> k"
      by (rule run_keeps_tokens) (simp_all add: f i)
    then have "fetching (run u r evs' ?s1) \<noteq> Some tok" using t by auto
    then show "step u r (Fetched tok ms) (run u r evs' ?s1) = run u r evs' ?s1"
      by (simp add: step_def fetchResolved_def)
  }
  assume "list_all (predates (issued s)) evs"
  with m show "optimisticMessage u r now nm \<in> set (messagesOf (messages (run u r evs ?s1)))"
    by (intro run_keeps_entry [where n = "issued s"]) (simp_all add: f i)
qed

text \<open>
  The first fetch is in flight when the user sends \<open>x\<close>; its answer (an empty list) and
  a pushed message arrive afterwards, and \<open>x\<close> is still shown.
\<close>

theorem stale_fetch_never_overwrites_optimistic_entry_witness:
  "list_all (predates (issued (step ''me'' ''r1'' Refetch initial)))
     [Fetched 0 [], Realtime (ChatMessage (sampleMessage ''m1'' ''yo'')), Tick]
   \<and> fetching (step ''me'' ''r1'' Refetch initial) = Some 0
   \<and> step ''me'' ''r1'' (Fetched 0 [])
        (step ''me'' ''r1'' (Send (sampleDraft ''x'' ''hi'') 2000)
           (step ''me'' ''r1'' Refetch initial))
      = step ''me'' ''r1'' (Send (sampleDraft ''x'' ''hi'') 2000)
           (step ''me'' ''r1'' Refetch initial)
   \<and> optimisticMessage ''me'' ''r1'' 2000 (sampleDraft ''x'' ''hi'')
       \<in> set (messagesOf (messages (run ''me'' ''r1''
            [Fetched 0 [], Realtime (ChatMessage (sampleMessage ''m1'' ''yo'')), Tick]
            (step ''me'' ''r1'' (Send (sampleDraft ''x'' ''hi'') 2000)
               (step ''me'' ''r1'' Refetch initial)))))"
proof -
  let ?s = "step ''me'' ''r1'' Refetch initial"
  let ?evs = "[Fetched 0 [], Realtime (ChatMessage (sampleMessage ''m1'' ''yo'')), Tick]"
  have h: "list_all (predates (issued ?s)) ?evs"
    by (simp add: predates_def step_def invalidateQueries_def initial_def)
  have g: "fetching ?s = Some 0" and tok: "0 < issued ?s"
    by (simp_all add: step_def invalidateQueries_def initial_def)
  note t = stale_fetch_never_overwrites_optimistic_entry
    [of "''me''" "''r1''" "sampleDraft ''x'' ''hi''" 2000 ?s ?evs]
  from t tok have "step ''me'' ''r1'' (Fetched 0 [])
        (run ''me'' ''r1'' [] (step ''me'' ''r1'' (Send (sampleDraft ''x'' ''hi'') 2000) ?s))
      = run ''me'' ''r1'' [] (step ''me'' ''r1'' (Send (sampleDraft ''x'' ''hi'') 2000) ?s)"
    by blast
  moreover from t h have "optimisticMessage ''me'' ''r1'' 2000 (sampleDraft ''x'' ''hi'')
       \<in> set (messagesOf (messages (run ''me'' ''r1'' ?evs
            (step ''me'' ''r1'' (Send (sampleDraft ''x'' ''hi'') 2000) ?s))))"
    by blast
  ultimately show ?thesis using h g by simp
qed

section \<open>The composer's send\<close>

lemma trim_empty_iff: "trim xs = [] \<longleftrightarrow> list_all isWhiteSpace xs"
proof -
  let ?d = "dropWhile isWhiteSpace xs"
  have "trim xs = [] \<longleftrightarrow> (\<forall>x \<in> set ?d. isWhiteSpace x)"
    by (simp add: trim_def)
  also have "\<dots> \<longleftrightarrow> ?d = []"
  proof
    assume all: "\<forall>x \<in> set ?d. isWhiteSpace x"
    show "?d = []"
    proof (rule ccontr)
      assume ne: "?d \<noteq> []"
      then have "\<not> isWhiteSpace (hd ?d)" by (rule hd_dropWhile)
      moreover have "hd ?d \<in> set ?d" using ne by (rule hd_in_set)
      ultimately show False using all by blast
    qed
  next
    assume e: "?d = []"
    show "\<forall>x \<in> set ?d. isWhiteSpace x" unfolding e by simp
  qed
  also have "\<dots> \<longleftrightarrow> list_all isWhiteSpace xs"
    by (simp add: list_all_iff)
  finally show ?thesis .
qed

text \<open>
  Claim C10. When the text is empty or consists of white space only and no image is
  attached, a send from the key handler (Enter without Shift) or from the send button
  calls \<open>onSend\<close> not at all and leaves the composer as it is. In every other state
  \<open>handleSend\<close> calls \<open>onSend\<close> once, with the text as typed and the image, and clears the
  text, the image data and the image preview.
\<close>

theorem composer_send_guard:
  "(list_all isWhiteSpace (input s) \<and> imageData s = None \<longrightarrow>
      handleSend s = s \<and> onKeyDown ''Enter'' False s = s \<and> onSendClick isPending s = s)
   \<and> (\<not> (list_all isWhiteSpace (input s) \<and> imageData s = None) \<longrightarrow>
      sent (handleSend s) = sent s @ [(input s, imageData s)]
      \<and> input (handleSend s) = []
      \<and> imageData (handleSend s) = None
      \<and> imagePreview (handleSend s) = None
      \<and> onKeyDown ''Enter'' False s = handleSend s
      \<and> onSendClick False s = handleSend s)"
  by (simp add: handleSend_def onKeyDown_def onSendClick_def sendDisabled_def removeImage_def
        trim_empty_iff)

text \<open>
  A composer holding a space and a tab and no image sends nothing; one holding
  \<open>hi\<close> sends it and is cleared; one holding only an image sends the image.
\<close>

theorem composer_send_guard_witness:
  "handleSend \<lparr> input = [0x20, 0x9], imagePreview = None, imageData = None,
       isUploading = False, fileInput = Some [], sent = [] \<rparr>
     = \<lparr> input = [0x20, 0x9], imagePreview = None, imageData = None,
       isUploading = False, fileInput = Some [], sent = [] \<rparr>
   \<and> handleSend \<lparr> input = [0x68, 0x69], imagePreview = None, imageData = None,
       isUploading = False, fileInput = Some [], sent = [] \<rparr>
     = \<lparr> input = [], imagePreview = None, imageData = None,
       isUploading = False, fileInput = Some [], sent = [([0x68, 0x69], None)] \<rparr>
   \<and> sent (handleSend \<lparr> input = [], imagePreview = Some [0x62],
       imageData = Some \<lparr> base64 = [0x41], mimeType = [0x6A] \<rparr>,
       isUploading = False, fileInput = Some [0x66], sent = [] \<rparr>)
     = [([], Some \<lparr> base64 = [0x41], mimeType = [0x6A] \<rparr>)]"
proof -
  let ?blank = "\<lparr> input = [0x20, 0x9], imagePreview = None, imageData = None,
       isUploading = False, fileInput = Some [], sent = [] \<rparr>"
  let ?hi = "\<lparr> input = [0x68, 0x69], imagePreview = None, imageData = None,
       isUploading = False, fileInput = Some [], sent = [] \<rparr>"
  let ?img = "\<lparr> input = [], imagePreview = Some [0x62],
       imageData = Some \<lparr> base64 = [0x41], mimeType = [0x6A] \<rparr>,
       isUploading = False, fileInput = Some [0x66], sent = [] \<rparr>"
  have b: "list_all isWhiteSpace (input ?blank) \<and> imageData ?blank = None"
    by (simp add: isWhiteSpace_def)
  have h: "\<not> (list_all isWhiteSpace (input ?hi) \<and> imageData ?hi = None)"
    by (simp add: isWhiteSpace_def)
  have i: "\<not> (list_all isWhiteSpace (input ?img) \<and> imageData ?img = None)"
    by simp
  have 1: "handleSend ?blank = ?blank"
    using composer_send_guard [of ?blank False] b by blast
  have 2: "sent (handleSend ?hi) = sent ?hi @ [(input ?hi, imageData ?hi)]
      \<and> input (handleSend ?hi) = [] \<and> imageData (handleSend ?hi) = None
      \<and> imagePreview (handleSend ?hi) = None"
    using composer_send_guard [of ?hi False] h by blast
  have 3: "sent (handleSend ?img) = sent ?img @ [(input ?img, imageData ?img)]"
    using composer_send_guard [of ?img False] i by blast
  have frame: "isUploading (handleSend ?hi) = False \<and> fileInput (handleSend ?hi) = Some []"
    by (simp add: handleSend_def removeImage_def)
  have "handleSend ?hi = \<lparr> input = [], imagePreview = None, imageData = None,
       isUploading = False, fileInput = Some [], sent = [([0x68, 0x69], None)] \<rparr>"
    using 2 frame by (cases "handleSend ?hi") simp
  with 1 3 show ?thesis by simp
qed

end
